theory Spec2Isabelle
  imports Main "HOL-Library.Sublist" "HOL-Library.AList"
begin

section \<open>JavaScript strings\<close>

text \<open>
  A document text is a \<^typ>\<open>string\<close>; a \<^typ>\<open>char\<close> stands for one UTF-16 code unit
  below 256, and offsets count code units as \<open>String.prototype.length\<close> does.  The
  functions of this section are the \<open>String.prototype\<close> methods the detectors call.
\<close>

definition code :: "char \<Rightarrow> nat" where
  "code c = of_char c"

definition in_range :: "char \<Rightarrow> char \<Rightarrow> char \<Rightarrow> bool" where
  "in_range lo hi c = (code lo \<le> code c \<and> code c \<le> code hi)"

definition LF :: char where "LF = CHR 0x0A"
definition CR :: char where "CR = CHR 0x0D"
definition DQ :: char where "DQ = CHR 0x22"
definition SQ :: char where "SQ = CHR 0x27"
definition BQ :: char where "BQ = CHR 0x60"
definition BSL :: char where "BSL = CHR 0x5C"

definition isWhiteSpace :: "char \<Rightarrow> bool" where
  "isWhiteSpace c = (let n = code c in (9 \<le> n \<and> n \<le> 13) \<or> n = 32 \<or> n = 160)"

definition lowerChar :: "char \<Rightarrow> char" where
  "lowerChar c = (let n = code c in
     if (65 \<le> n \<and> n \<le> 90) \<or> (192 \<le> n \<and> n \<le> 222 \<and> n \<noteq> 215)
     then char_of (n + 32) else c)"

definition upperChar :: "char \<Rightarrow> char" where
  "upperChar c = (let n = code c in
     if (97 \<le> n \<and> n \<le> 122) \<or> (224 \<le> n \<and> n \<le> 254 \<and> n \<noteq> 247)
     then char_of (n - 32) else c)"

definition toLowerCase :: "string \<Rightarrow> string" where
  "toLowerCase s = map lowerChar s"

definition trim :: "string \<Rightarrow> string" where
  "trim s = rev (dropWhile isWhiteSpace (rev (dropWhile isWhiteSpace s)))"

definition startsWith :: "string \<Rightarrow> string \<Rightarrow> bool" where
  "startsWith s p = (take (length p) s = p)"

definition endsWith :: "string \<Rightarrow> string \<Rightarrow> bool" where
  "endsWith s p = (length p \<le> length s \<and> drop (length s - length p) s = p)"

text \<open>\<open>s.substring(a, b)\<close> clamps both indices to the length and swaps them when \<open>a > b\<close>.\<close>

definition substring :: "string \<Rightarrow> nat \<Rightarrow> nat \<Rightarrow> string" where
  "substring s a b = (let a' = min a (length s); b' = min b (length s)
     in take (max a' b' - min a' b') (drop (min a' b') s))"

text \<open>\<open>s.substring(a)\<close>, and \<open>s.slice(0, -1)\<close>, \<open>s.slice(1, -1)\<close>.\<close>

definition substringFrom :: "string \<Rightarrow> nat \<Rightarrow> string" where
  "substringFrom s a = drop a s"

definition slice_0_m1 :: "string \<Rightarrow> string" where
  "slice_0_m1 s = butlast s"

definition slice_1_m1 :: "string \<Rightarrow> string" where
  "slice_1_m1 s = butlast (tl s)"

fun indexOf_aux :: "string \<Rightarrow> string \<Rightarrow> nat \<Rightarrow> nat option" where
  "indexOf_aux p [] k = (if p = [] then Some k else None)"
| "indexOf_aux p (x # xs) k =
     (if startsWith (x # xs) p then Some k else indexOf_aux p xs (k + 1))"

text \<open>\<open>s.indexOf(p, from)\<close>; \<open>None\<close> stands for the result \<open>-1\<close>.\<close>

definition indexOf :: "string \<Rightarrow> string \<Rightarrow> nat \<Rightarrow> nat option" where
  "indexOf s p from = indexOf_aux p (drop from s) (min from (length s))"

fun lastIndexOf_aux :: "string \<Rightarrow> string \<Rightarrow> nat \<Rightarrow> nat option \<Rightarrow> nat option" where
  "lastIndexOf_aux p [] k acc = (if p = [] then Some k else acc)"
| "lastIndexOf_aux p (x # xs) k acc =
     lastIndexOf_aux p xs (k + 1) (if startsWith (x # xs) p then Some k else acc)"

definition lastIndexOf :: "string \<Rightarrow> string \<Rightarrow> nat option" where
  "lastIndexOf s p = lastIndexOf_aux p s 0 None"

text \<open>\<open>s.lastIndexOf(p, from)\<close>: the last occurrence that starts at or before \<open>from\<close>.\<close>

definition lastIndexOfFrom :: "string \<Rightarrow> string \<Rightarrow> nat \<Rightarrow> nat option" where
  "lastIndexOfFrom s p from = lastIndexOf (take (from + length p) s) p"

definition js_index :: "nat option \<Rightarrow> int" where
  "js_index r = (case r of None \<Rightarrow> - 1 | Some k \<Rightarrow> int k)"

definition str_includes :: "string \<Rightarrow> string \<Rightarrow> bool" where
  "str_includes s p = (indexOf s p 0 \<noteq> None)"

text \<open>\<open>s.split('\n')\<close>\<close>

fun split_lines :: "string \<Rightarrow> string list" where
  "split_lines [] = [[]]"
| "split_lines (c # cs) =
     (if c = LF then [] # split_lines cs
      else (case split_lines cs of [] \<Rightarrow> [[c]] | l # ls \<Rightarrow> (c # l) # ls))"

text \<open>The decimal rendering of a number inside a template literal.\<close>

fun toString :: "nat \<Rightarrow> string" where
  "toString n = (if n < 10 then [char_of (48 + n)]
     else toString (n div 10) @ [char_of (48 + n mod 10)])"

declare toString.simps [simp del]

section \<open>Regular expressions\<close>

text \<open>
  The \<open>RegExp\<close> objects of the JavaScript runtime, as a backtracking matcher over an
  abstract syntax.  The matcher returns the final states of all ways to match in the
  order in which the runtime would try them, so the head of the list is the match the
  runtime reports.  Quantifiers are greedy.  Captures made inside a quantified group are
  not reset between iterations; no regular expression of the program reads such a
  capture.
\<close>

datatype citem = CChar char | CRange char char | CDigit | CWord | CSpace

datatype regex =
    Chr char
  | Dot
  | Cls "citem list"
  | NCls "citem list"
  | Epsilon
  | Seq regex regex
  | Alt regex regex
  | Rep nat "nat option" regex
  | Grp nat regex
  | Bol
  | Eol
  | NotBehind "citem list"
  | NotAhead "citem list"

fun item_has :: "citem \<Rightarrow> char \<Rightarrow> bool" where
  "item_has (CChar a) c = (a = c)"
| "item_has (CRange lo hi) c = in_range lo hi c"
| "item_has CDigit c = in_range CHR ''0'' CHR ''9'' c"
| "item_has CWord c = (in_range CHR ''a'' CHR ''z'' c \<or> in_range CHR ''A'' CHR ''Z'' c
     \<or> in_range CHR ''0'' CHR ''9'' c \<or> c = CHR ''_'')"
| "item_has CSpace c = isWhiteSpace c"

text \<open>With the \<open>i\<close> flag a character matches when one of its case variants does.\<close>

definition in_class :: "bool \<Rightarrow> citem list \<Rightarrow> char \<Rightarrow> bool" where
  "in_class ic items c = list_ex (\<lambda>it. item_has it c
      \<or> (ic \<and> (item_has it (upperChar c) \<or> item_has it (lowerChar c)))) items"

definition same_char :: "bool \<Rightarrow> char \<Rightarrow> char \<Rightarrow> bool" where
  "same_char ic a c = (a = c \<or> (ic \<and> upperChar a = upperChar c))"

text \<open>
  A matcher state: the character before the current position, the position, the rest of
  the input, and the captures made so far (the latest first).
\<close>

datatype mstate = MState (st_prev: "char option") (st_pos: nat) (st_rest: string)
  (st_caps: "(nat \<times> string) list")

definition step :: "(char \<Rightarrow> bool) \<Rightarrow> mstate \<Rightarrow> mstate list" where
  "step P st = (case st_rest st of [] \<Rightarrow> []
     | x # xs \<Rightarrow> if P x then [MState (Some x) (st_pos st + 1) xs (st_caps st)] else [])"

definition set_cap :: "nat \<Rightarrow> mstate \<Rightarrow> mstate \<Rightarrow> mstate" where
  "set_cap n st st' = MState (st_prev st') (st_pos st') (st_rest st')
     ((n, take (st_pos st' - st_pos st) (st_rest st)) # st_caps st')"

fun rsize :: "regex \<Rightarrow> nat" where
  "rsize (Seq a b) = Suc (rsize a + rsize b)"
| "rsize (Alt a b) = Suc (rsize a + rsize b)"
| "rsize (Rep mn mx r) = Suc (rsize r)"
| "rsize (Grp n r) = Suc (rsize r)"
| "rsize _ = 0"

fun rep_min :: "regex \<Rightarrow> nat" where
  "rep_min (Rep mn mx r) = mn"
| "rep_min _ = 0"

text \<open>
  \<open>ms ic len r st\<close> matches \<open>r\<close> from the state \<open>st\<close> of an input of length \<open>len\<close>.
  In the repetition, an iteration that consumed nothing once the minimum is reached is
  abandoned, as the runtime does; the second test on the positions never fails (a
  matcher only moves forward, \<open>ms_forward\<close> below) and is there for the termination
  proof.
\<close>

function ms :: "bool \<Rightarrow> nat \<Rightarrow> regex \<Rightarrow> mstate \<Rightarrow> mstate list" where
  "ms ic len (Chr c) st = step (same_char ic c) st"
| "ms ic len Dot st = step (\<lambda>x. x \<noteq> LF \<and> x \<noteq> CR) st"
| "ms ic len (Cls items) st = step (in_class ic items) st"
| "ms ic len (NCls items) st = step (\<lambda>x. \<not> in_class ic items x) st"
| "ms ic len Epsilon st = [st]"
| "ms ic len (Seq a b) st = concat (map (ms ic len b) (ms ic len a st))"
| "ms ic len (Alt a b) st = ms ic len a st @ ms ic len b st"
| "ms ic len (Grp n r) st = map (set_cap n st) (ms ic len r st)"
| "ms ic len Bol st = (if st_pos st = 0 then [st] else [])"
| "ms ic len Eol st = (if st_rest st = [] then [st] else [])"
| "ms ic len (NotBehind items) st =
     (case st_prev st of None \<Rightarrow> [st]
      | Some x \<Rightarrow> if in_class ic items x then [] else [st])"
| "ms ic len (NotAhead items) st =
     (case st_rest st of [] \<Rightarrow> [st]
      | x # _ \<Rightarrow> if in_class ic items x then [] else [st])"
| "ms ic len (Rep mn mx r) st =
     (if mx = Some 0 then [st]
      else concat (map (\<lambda>st'.
             if mn = 0 \<and> st_pos st' = st_pos st then []
             else if st_pos st \<le> st_pos st' \<and> st_pos st' \<le> len
               then ms ic len (Rep (mn - 1) (map_option (\<lambda>k. k - 1) mx) r) st'
               else [])
           (ms ic len r st))
        @ (if mn = 0 then [st] else []))"
  by pat_completeness auto
termination
  by (relation "measures [\<lambda>(ic, len, r, st). rsize r,
                          \<lambda>(ic, len, r, st). len - st_pos st + rep_min r]") auto

declare ms.simps [simp del]

text \<open>A \<open>RegExp\<close> object: its pattern and its \<open>i\<close> flag.\<close>

record RegExp =
  source :: regex
  ignoreCase :: bool

text \<open>The array \<open>exec\<close> returns: \<open>match.index\<close>, \<open>match[0]\<close> and the groups.\<close>

record RegExpExecArray =
  index :: nat
  m0 :: string
  groups :: "(nat \<times> string) list"

definition group :: "RegExpExecArray \<Rightarrow> nat \<Rightarrow> string option" where
  "group m k = map_of (groups m) k"

fun search :: "RegExp \<Rightarrow> nat \<Rightarrow> char option \<Rightarrow> nat \<Rightarrow> string \<Rightarrow> RegExpExecArray option"
  where
  "search re len prev i rest =
     (case ms (ignoreCase re) len (source re) (MState prev i rest []) of
        st # _ \<Rightarrow> Some \<lparr>index = i, m0 = take (st_pos st - i) rest, groups = st_caps st\<rparr>
      | [] \<Rightarrow> (case rest of [] \<Rightarrow> None | x # xs \<Rightarrow> search re len (Some x) (i + 1) xs))"

declare search.simps [simp del]

text \<open>\<open>re.exec(text)\<close> with \<open>re.lastIndex = lastIndex\<close>: the leftmost match at or after it.\<close>

definition exec :: "RegExp \<Rightarrow> string \<Rightarrow> nat \<Rightarrow> RegExpExecArray option" where
  "exec re text lastIndex =
     (if length text < lastIndex then None
      else search re (length text)
             (if lastIndex = 0 then None else Some (text ! (lastIndex - 1)))
             lastIndex (drop lastIndex text))"

definition Star :: "regex \<Rightarrow> regex" where "Star r = Rep 0 None r"
definition Plus :: "regex \<Rightarrow> regex" where "Plus r = Rep 1 None r"
definition Opt :: "regex \<Rightarrow> regex" where "Opt r = Rep 0 (Some 1) r"
definition Times :: "nat \<Rightarrow> regex \<Rightarrow> regex" where "Times n r = Rep n (Some n) r"
definition AtLeast :: "nat \<Rightarrow> regex \<Rightarrow> regex" where "AtLeast n r = Rep n None r"
definition Seqs :: "regex list \<Rightarrow> regex" where "Seqs rs = foldr Seq rs Epsilon"
definition Lit :: "string \<Rightarrow> regex" where "Lit s = Seqs (map Chr s)"


subsection \<open>The \<open>RegExp\<close> constructor\<close>

text \<open>
  \<open>new RegExp(pattern, flags)\<close> parses a pattern text and throws a \<open>SyntaxError\<close> when
  the text is not a pattern.  The parser below covers characters, \<open>.\<close>, classes with
  ranges, the escapes \<open>\d \w \s \D \W \S \n \r \t\<close> and escaped punctuation, groups,
  non-capturing groups, alternatives, \<open>^\<close>, \<open>$\<close> and the greedy quantifiers; \<open>None\<close> is
  the thrown error.  The runtime compiles more than this fragment: word boundaries,
  lazy quantifiers, look-around, back references and the escapes \<open>\xHH\<close> and \<open>\uHHHH\<close>.
  For such a text \<open>new_RegExp\<close> gives \<open>None\<close> too, which is not what the runtime does: a
  result \<open>None\<close> stands for the thrown error only for a text of the fragment, such as an
  unclosed parenthesis.
\<close>

definition isDigit :: "char \<Rightarrow> bool" where
  "isDigit c = in_range CHR ''0'' CHR ''9'' c"

definition isAlnum :: "char \<Rightarrow> bool" where
  "isAlnum c = (isDigit c \<or> in_range CHR ''a'' CHR ''z'' c \<or> in_range CHR ''A'' CHR ''Z'' c)"

fun parseNat :: "string \<Rightarrow> nat \<Rightarrow> nat \<times> string" where
  "parseNat [] acc = (acc, [])"
| "parseNat (c # cs) acc =
     (if isDigit c then parseNat cs (acc * 10 + (code c - 48)) else (acc, c # cs))"

datatype quantifier = NoQuantifier | Quantifier nat "nat option" string | BadQuantifier

definition closeBrace :: "string \<Rightarrow> (string \<Rightarrow> quantifier) \<Rightarrow> quantifier" where
  "closeBrace s k = (case s of [] \<Rightarrow> NoQuantifier
     | c # cs \<Rightarrow> if c = CHR ''}'' then k cs else NoQuantifier)"

definition parseBraces :: "string \<Rightarrow> quantifier" where
  "parseBraces cs = (case cs of [] \<Rightarrow> NoQuantifier
     | c # _ \<Rightarrow> if \<not> isDigit c then NoQuantifier
        else (case parseNat cs 0 of (n, r1) \<Rightarrow>
          (case r1 of [] \<Rightarrow> NoQuantifier
           | d # r2 \<Rightarrow>
               if d = CHR ''}'' then Quantifier n (Some n) r2
               else if d \<noteq> CHR '','' then NoQuantifier
               else (case r2 of [] \<Rightarrow> NoQuantifier
                 | e # r3 \<Rightarrow>
                     if e = CHR ''}'' then Quantifier n None r3
                     else if \<not> isDigit e then NoQuantifier
                     else (case parseNat r2 0 of (m, r4) \<Rightarrow>
                       closeBrace r4 (\<lambda>r5. if m < n then BadQuantifier
                                            else Quantifier n (Some m) r5))))))"

definition parseQuantifier :: "string \<Rightarrow> quantifier" where
  "parseQuantifier s = (case s of [] \<Rightarrow> NoQuantifier
     | c # cs \<Rightarrow>
        (let q = (if c = CHR ''*'' then Quantifier 0 None cs
                  else if c = CHR ''+'' then Quantifier 1 None cs
                  else if c = CHR ''?'' then Quantifier 0 (Some 1) cs
                  else if c = CHR ''{'' then parseBraces cs
                  else NoQuantifier)
         in (case q of
               Quantifier mn mx (d # r) \<Rightarrow> if d = CHR ''?'' then BadQuantifier else q
             | _ \<Rightarrow> q)))"

definition classEscape :: "char \<Rightarrow> citem option" where
  "classEscape c =
     (if c = CHR ''d'' then Some CDigit
      else if c = CHR ''w'' then Some CWord
      else if c = CHR ''s'' then Some CSpace
      else if c = CHR ''n'' then Some (CChar LF)
      else if c = CHR ''r'' then Some (CChar CR)
      else if c = CHR ''t'' then Some (CChar (CHR 0x09))
      else if isAlnum c then None
      else Some (CChar c))"

definition classAtom :: "string \<Rightarrow> (citem \<times> string) option" where
  "classAtom s = (case s of [] \<Rightarrow> None
     | c # cs \<Rightarrow>
        if c = BSL then (case cs of [] \<Rightarrow> None
                        | e # r \<Rightarrow> map_option (\<lambda>it. (it, r)) (classEscape e))
        else Some (CChar c, cs))"

definition rangeFollows :: "citem \<Rightarrow> string \<Rightarrow> bool" where
  "rangeFollows a r = (case a of
       CChar lo \<Rightarrow> (case r of d # e # _ \<Rightarrow> d = CHR ''-'' \<and> e \<noteq> CHR '']'' | _ \<Rightarrow> False)
     | _ \<Rightarrow> False)"

fun parseClass :: "nat \<Rightarrow> string \<Rightarrow> citem list \<Rightarrow> (citem list \<times> string) option" where
  "parseClass 0 s acc = None"
| "parseClass (Suc k) s acc = (case s of [] \<Rightarrow> None
     | c # cs \<Rightarrow>
        if c = CHR '']'' then Some (rev acc, cs)
        else (case classAtom s of None \<Rightarrow> None
          | Some (a, r1) \<Rightarrow>
             if rangeFollows a r1
             then (case classAtom (tl r1) of None \<Rightarrow> None
                   | Some (b, r3) \<Rightarrow>
                      (case (a, b) of
                         (CChar lo, CChar hi) \<Rightarrow>
                            if code hi < code lo then None
                            else parseClass k r3 (CRange lo hi # acc)
                       | _ \<Rightarrow> parseClass k r3 (b # CChar CHR ''-'' # a # acc)))
             else parseClass k r1 (a # acc)))"

definition atomEscape :: "char \<Rightarrow> regex option" where
  "atomEscape c =
     (if c = CHR ''d'' then Some (Cls [CDigit])
      else if c = CHR ''w'' then Some (Cls [CWord])
      else if c = CHR ''s'' then Some (Cls [CSpace])
      else if c = CHR ''D'' then Some (NCls [CDigit])
      else if c = CHR ''W'' then Some (NCls [CWord])
      else if c = CHR ''S'' then Some (NCls [CSpace])
      else if c = CHR ''n'' then Some (Chr LF)
      else if c = CHR ''r'' then Some (Chr CR)
      else if c = CHR ''t'' then Some (Chr (CHR 0x09))
      else if isAlnum c then None
      else Some (Chr c))"

definition closeParen :: "(regex \<times> string \<times> nat) option \<Rightarrow> (regex \<Rightarrow> regex)
    \<Rightarrow> (regex \<times> string \<times> nat) option" where
  "closeParen res wrap = (case res of None \<Rightarrow> None
     | Some (r, rest, n) \<Rightarrow>
        (case rest of [] \<Rightarrow> None
         | d # rest' \<Rightarrow> if d = CHR '')'' then Some (wrap r, rest', n) else None))"

fun parseDisjunction :: "nat \<Rightarrow> string \<Rightarrow> nat \<Rightarrow> (regex \<times> string \<times> nat) option"
  and parseAlternative :: "nat \<Rightarrow> string \<Rightarrow> nat \<Rightarrow> (regex \<times> string \<times> nat) option"
  and parseTerm :: "nat \<Rightarrow> string \<Rightarrow> nat \<Rightarrow> (regex \<times> string \<times> nat) option"
  and parseAtom :: "nat \<Rightarrow> string \<Rightarrow> nat \<Rightarrow> (regex \<times> string \<times> nat) option"
  where
  "parseDisjunction 0 s n = None"
| "parseDisjunction (Suc k) s n = (case parseAlternative k s n of None \<Rightarrow> None
     | Some (a, rest, n1) \<Rightarrow>
        (case rest of [] \<Rightarrow> Some (a, rest, n1)
         | c # rest' \<Rightarrow>
            if c = CHR ''|''
            then (case parseDisjunction k rest' n1 of None \<Rightarrow> None
                  | Some (b, rest'', n2) \<Rightarrow> Some (Alt a b, rest'', n2))
            else Some (a, rest, n1)))"
| "parseAlternative 0 s n = None"
| "parseAlternative (Suc k) s n = (case s of [] \<Rightarrow> Some (Epsilon, [], n)
     | c # cs \<Rightarrow>
        if c = CHR ''|'' \<or> c = CHR '')'' then Some (Epsilon, s, n)
        else (case parseTerm k s n of None \<Rightarrow> None
          | Some (t, rest, n1) \<Rightarrow>
             (case parseAlternative k rest n1 of None \<Rightarrow> None
              | Some (a, rest', n2) \<Rightarrow> Some (Seq t a, rest', n2))))"
| "parseTerm 0 s n = None"
| "parseTerm (Suc k) s n = (case s of [] \<Rightarrow> None
     | c # cs \<Rightarrow>
        if c = CHR ''^'' then Some (Bol, cs, n)
        else if c = CHR ''$'' then Some (Eol, cs, n)
        else (case parseAtom k s n of None \<Rightarrow> None
          | Some (a, r, n1) \<Rightarrow>
             (case parseQuantifier r of
                NoQuantifier \<Rightarrow> Some (a, r, n1)
              | BadQuantifier \<Rightarrow> None
              | Quantifier mn mx r' \<Rightarrow> Some (Rep mn mx a, r', n1))))"
| "parseAtom 0 s n = None"
| "parseAtom (Suc k) s n = (case s of [] \<Rightarrow> None
     | c # cs \<Rightarrow>
        if c = CHR ''(''
        then (if startsWith cs ''?:'' then closeParen (parseDisjunction k (drop 2 cs) n) (\<lambda>r. r)
              else if startsWith cs ''?'' then None
              else closeParen (parseDisjunction k cs (n + 1)) (Grp (n + 1)))
        else if c = CHR ''[''
        then (if startsWith cs ''^''
              then map_option (\<lambda>(items, r). (NCls items, r, n)) (parseClass k (tl cs) [])
              else map_option (\<lambda>(items, r). (Cls items, r, n)) (parseClass k cs []))
        else if c = BSL
        then (case cs of [] \<Rightarrow> None
              | e # r \<Rightarrow> map_option (\<lambda>a. (a, r, n)) (atomEscape e))
        else if c = CHR ''.'' then Some (Dot, cs, n)
        else if c = CHR ''*'' \<or> c = CHR ''+'' \<or> c = CHR ''?'' \<or> c = CHR '')'' \<or> c = CHR ''|''
        then None
        else if c = CHR ''{'' \<and> parseBraces cs \<noteq> NoQuantifier then None
        else Some (Chr c, cs, n))"

definition parsePattern :: "string \<Rightarrow> regex option" where
  "parsePattern s = (case parseDisjunction (4 * length s + 4) s 0 of
       Some (r, [], n) \<Rightarrow> Some r
     | _ \<Rightarrow> None)"

definition new_RegExp :: "string \<Rightarrow> bool \<Rightarrow> RegExp option" where
  "new_RegExp pattern ic =
     map_option (\<lambda>r. \<lparr>source = r, ignoreCase = ic\<rparr>) (parsePattern pattern)"


section \<open>Types (\<open>utils/types.ts\<close>) and the editor's documents\<close>

datatype SecretType =
    AWS_ACCESS_KEY | AWS_SECRET_KEY | STRIPE_LIVE_KEY | STRIPE_TEST_KEY | GITHUB_PAT
  | GITHUB_FINE_GRAINED | GOOGLE_API_KEY | FIREBASE_KEY | SUPABASE_KEY | JWT | PRIVATE_KEY
  | GENERIC_SECRET | CUSTOM_PATTERN | URL_SENSITIVE | ENV_VALUE

text \<open>
  A position of the editor is a line and a character of that line.  It is represented
  by its offset in the document text, the offset of the start of the line plus the
  character; the order of the positions is the order of these offsets.  A range is
  represented by the offsets of its two ends, and the \<open>Range\<close> constructor orders them.

  The text of a document of the editor has one end-of-line sequence, a line feed or a
  carriage return followed by a line feed.  \<open>document.positionAt\<close> adjusts an offset that
  lies outside the text, and limits the character to the length of the line: the offset
  of the line feed that ends a line after a carriage return gives the position of that
  carriage return, the end of the line.
\<close>

record Range =
  r_start :: nat
  r_end :: nat

definition new_Range :: "nat \<Rightarrow> nat \<Rightarrow> Range" where
  "new_Range a b = \<lparr>r_start = min a b, r_end = max a b\<rparr>"

record TextDocument =
  getText :: string
  uri :: string
  fileName :: string
  languageId :: string

definition positionAt :: "TextDocument \<Rightarrow> int \<Rightarrow> nat" where
  "positionAt document offset =
     (let text = getText document;
          k = nat (max 0 (min offset (int (length text))))
      in if 0 < k \<and> k < length text \<and> text ! (k - 1) = CR \<and> text ! k = LF
         then k - 1 else k)"

record SensitiveMatch =
  range_m :: Range
  type_m :: SecretType
  originalValue :: string
  confidence :: nat
  isMasked :: bool
  id_m :: string
  keyName :: "string option"

record CustomPattern =
  cp_name :: string
  cp_pattern :: string
  cp_description :: "string option"

record VeilSettings =
  enabled :: bool
  screenShareMode :: bool
  maskCharacter :: string
  hoverToReveal :: bool
  revealDuration :: nat
  maskUrls :: bool
  customPatterns :: "CustomPattern list"
  hiddenVariables :: "string list"
  hiddenStrings :: "string list"

record DocumentMaskState =
  ds_uri :: string
  fileMasked :: bool
  matchStates :: "string \<rightharpoonup> bool"
  matches :: "SensitiveMatch list"
  lastScan :: nat

record PatternDefinition =
  pd_name :: string
  pd_type :: SecretType
  pd_pattern :: RegExp
  pd_description :: string
  minConfidence :: nat

record DetectionContext =
  ctx_languageId :: string
  ctx_fileName :: string
  ctx_fileExtension :: string
  ctx_isConfigFile :: bool
  ctx_isEnvFile :: bool

section \<open>Constants (\<open>utils/constants.ts\<close>)\<close>

definition MIN_SECRET_LENGTH :: nat where
  "MIN_SECRET_LENGTH = 8"

definition CONFIG_FILE_EXTENSIONS :: "string list" where
  "CONFIG_FILE_EXTENSIONS =
     [''.json'', ''.yaml'', ''.yml'', ''.toml'', ''.ini'', ''.conf'', ''.config'']"

definition CONFIG_FILE_NAMES :: "string list" where
  "CONFIG_FILE_NAMES =
     [''config'', ''settings'', ''secrets'', ''credentials'', ''.env'', ''.env.local'',
      ''.env.development'', ''.env.production'', ''.env.test'']"

definition SENSITIVE_KEYWORDS :: "string list" where
  "SENSITIVE_KEYWORDS =
     [''api_key'', ''apikey'', ''api-key'', ''secret'', ''token'', ''password'', ''passwd'',
      ''pwd'', ''credentials'', ''auth'', ''authorization'', ''private'', ''access_key'',
      ''accesskey'', ''secret_key'', ''secretkey'', ''auth_token'', ''authtoken'', ''bearer'',
      ''jwt'', ''session'', ''cookie'', ''encryption'', ''decrypt'', ''encrypt'', ''key'',
      ''cert'', ''certificate'', ''ssl'', ''tls'', ''oauth'', ''client_id'', ''client_secret'',
      ''refresh_token'', ''id_token'', ''stripe'', ''aws'', ''azure'', ''gcp'', ''firebase'',
      ''supabase'', ''github'', ''gitlab'', ''bitbucket'', ''npm_token'', ''database_url'',
      ''db_password'', ''mongo_uri'', ''redis_url'', ''connection_string'', ''url'', ''uri'',
      ''endpoint'', ''host'', ''anon'']"

definition c09 :: citem where "c09 = CRange CHR ''0'' CHR ''9''"
definition caz :: citem where "caz = CRange CHR ''a'' CHR ''z''"
definition cAZ :: citem where "cAZ = CRange CHR ''A'' CHR ''Z''"
definition caf :: citem where "caf = CRange CHR ''a'' CHR ''f''"
definition cAF :: citem where "cAF = CRange CHR ''A'' CHR ''F''"
definition ws :: regex where "ws = Cls [CSpace]"

definition regexp :: "regex \<Rightarrow> RegExp" where
  "regexp r = \<lparr>source = r, ignoreCase = False\<rparr>"

definition regexp_i :: "regex \<Rightarrow> RegExp" where
  "regexp_i r = \<lparr>source = r, ignoreCase = True\<rparr>"

definition patternDef :: "string \<Rightarrow> SecretType \<Rightarrow> RegExp \<Rightarrow> string \<Rightarrow> nat \<Rightarrow> PatternDefinition"
  where
  "patternDef n t p d c =
     \<lparr>pd_name = n, pd_type = t, pd_pattern = p, pd_description = d, minConfidence = c\<rparr>"

definition base64_class :: "citem list" where
  "base64_class = [cAZ, caz, c09, CChar CHR ''/'', CChar CHR ''+'', CChar CHR ''='']"

definition token_class :: "citem list" where
  "token_class = [cAZ, caz, c09, CChar CHR ''-'', CChar CHR ''_'']"

definition hex_class :: "citem list" where
  "hex_class = [c09, caf, cAF]"

definition github_token :: "string \<Rightarrow> regex" where
  "github_token pre = Seqs [Lit pre, Times 36 (Cls [c09, caz, cAZ])]"

definition stripe_key :: "string \<Rightarrow> regex" where
  "stripe_key pre = Seqs [Lit pre, AtLeast 24 (Cls [c09, caz, cAZ])]"

definition PATTERN_DEFINITIONS :: "PatternDefinition list" where
  "PATTERN_DEFINITIONS =
   [patternDef ''AWS Access Key ID'' AWS_ACCESS_KEY
      (regexp (Seqs [Lit ''AKIA'', Times 16 (Cls [c09, cAZ])]))
      ''AWS Access Key ID starting with AKIA'' 95,
    patternDef ''AWS Secret Access Key'' AWS_SECRET_KEY
      (regexp (Seqs [NotBehind base64_class, Times 40 (Cls base64_class),
                     NotAhead base64_class]))
      ''AWS Secret Access Key (40 character base64)'' 60,
    patternDef ''Stripe Live Secret Key'' STRIPE_LIVE_KEY
      (regexp (stripe_key ''sk_live_'')) ''Stripe live secret key'' 98,
    patternDef ''Stripe Test Secret Key'' STRIPE_TEST_KEY
      (regexp (stripe_key ''sk_test_'')) ''Stripe test secret key'' 98,
    patternDef ''Stripe Publishable Key'' STRIPE_LIVE_KEY
      (regexp (stripe_key ''pk_live_'')) ''Stripe live publishable key'' 90,
    patternDef ''Stripe Restricted Key'' STRIPE_LIVE_KEY
      (regexp (stripe_key ''rk_live_'')) ''Stripe live restricted key'' 98,
    patternDef ''GitHub Personal Access Token'' GITHUB_PAT
      (regexp (github_token ''ghp_'')) ''GitHub personal access token'' 99,
    patternDef ''GitHub Fine-grained PAT'' GITHUB_FINE_GRAINED
      (regexp (Seqs [Lit ''github_pat_'', Times 22 (Cls [c09, caz, cAZ]), Chr CHR ''_'',
                     Times 59 (Cls [c09, caz, cAZ])]))
      ''GitHub fine-grained personal access token'' 99,
    patternDef ''GitHub OAuth Access Token'' GITHUB_PAT
      (regexp (github_token ''gho_'')) ''GitHub OAuth access token'' 99,
    patternDef ''GitHub User-to-Server Token'' GITHUB_PAT
      (regexp (github_token ''ghu_'')) ''GitHub user-to-server token'' 99,
    patternDef ''GitHub Server-to-Server Token'' GITHUB_PAT
      (regexp (github_token ''ghs_'')) ''GitHub server-to-server token'' 99,
    patternDef ''GitHub Refresh Token'' GITHUB_PAT
      (regexp (github_token ''ghr_'')) ''GitHub refresh token'' 99,
    patternDef ''Google API Key'' GOOGLE_API_KEY
      (regexp (Seqs [Lit ''AIza'',
                     Times 35 (Cls [c09, cAZ, caz, CChar CHR ''-'', CChar CHR ''_''])]))
      ''Google/Firebase API key'' 95,
    patternDef ''JSON Web Token'' JWT
      (regexp (Seqs [Lit ''eyJ'', Plus (Cls [cAZ, caz, c09, CChar CHR ''_'', CChar CHR ''-'']),
                     Chr CHR ''.'',
                     Lit ''eyJ'', Plus (Cls [cAZ, caz, c09, CChar CHR ''_'', CChar CHR ''-'']),
                     Chr CHR ''.'',
                     Plus (Cls [cAZ, caz, c09, CChar CHR ''_'', CChar CHR ''-''])]))
      ''JSON Web Token (JWT)'' 90,
    patternDef ''Private Key Block'' PRIVATE_KEY
      (regexp (Seqs [Lit ''-----BEGIN'', Plus ws,
                     Opt (Alt (Seqs [Lit ''RSA'', Plus ws])
                         (Alt (Seqs [Lit ''EC'', Plus ws])
                         (Alt (Seqs [Lit ''DSA'', Plus ws])
                              (Seqs [Lit ''OPENSSH'', Plus ws])))),
                     Lit ''PRIVATE'', Plus ws, Lit ''KEY-----'']))
      ''Private key header'' 99,
    patternDef ''Bearer Token'' GENERIC_SECRET
      (regexp_i (Seqs [Lit ''Bearer'', Plus ws, Plus (Cls token_class), Chr CHR ''.'',
                       Plus (Cls token_class), Chr CHR ''.'', Plus (Cls token_class)]))
      ''Bearer authentication token'' 85,
    patternDef ''Basic Auth'' GENERIC_SECRET
      (regexp_i (Seqs [Lit ''Basic'', Plus ws,
                       AtLeast 20 (Cls [cAZ, caz, c09, CChar CHR ''+'', CChar CHR ''/'',
                                        CChar CHR ''=''])]))
      ''Basic authentication credentials'' 80,
    patternDef ''NPM Token'' GENERIC_SECRET
      (regexp (Seqs [Lit ''npm_'', Times 36 (Cls [cAZ, caz, c09])]))
      ''NPM access token'' 98,
    patternDef ''Slack Token'' GENERIC_SECRET
      (regexp (Seqs [Lit ''xox'',
                     Cls [CChar CHR ''b'', CChar CHR ''a'', CChar CHR ''p'', CChar CHR ''r'',
                          CChar CHR ''s''],
                     Chr CHR ''-'', Rep 10 (Some 13) (Cls [c09]),
                     Chr CHR ''-'', Rep 10 (Some 13) (Cls [c09]),
                     Star (Cls [caz, cAZ, c09, CChar CHR ''-''])]))
      ''Slack bot/app token'' 95,
    patternDef ''Discord Bot Token'' GENERIC_SECRET
      (regexp (Seqs [Cls [CChar CHR ''M'', CChar CHR ''N''],
                     AtLeast 23 (Cls [cAZ, caz, CDigit]), Chr CHR ''.'',
                     Times 6 (Cls [CWord, CChar CHR ''-'']), Chr CHR ''.'',
                     Times 27 (Cls [CWord, CChar CHR ''-''])]))
      ''Discord bot token'' 90,
    patternDef ''SendGrid API Key'' GENERIC_SECRET
      (regexp (Seqs [Lit ''SG'', Chr CHR ''.'', Times 22 (Cls token_class), Chr CHR ''.'',
                     Times 43 (Cls token_class)]))
      ''SendGrid API key'' 98,
    patternDef ''Twilio API Key'' GENERIC_SECRET
      (regexp (Seqs [Lit ''SK'', Times 32 (Cls [caf, c09])]))
      ''Twilio API key'' 85,
    patternDef ''Mailchimp API Key'' GENERIC_SECRET
      (regexp (Seqs [Times 32 (Cls [caf, c09]), Lit ''-us'', Rep 1 (Some 2) (Cls [c09])]))
      ''Mailchimp API key'' 90,
    patternDef ''Heroku API Key'' GENERIC_SECRET
      (regexp (Seqs [Times 8 (Cls hex_class), Chr CHR ''-'', Times 4 (Cls hex_class),
                     Chr CHR ''-'', Times 4 (Cls hex_class), Chr CHR ''-'',
                     Times 4 (Cls hex_class), Chr CHR ''-'', Times 12 (Cls hex_class)]))
      ''Heroku API key (UUID format)'' 50,
    patternDef ''Generic Hex Secret'' GENERIC_SECRET
      (regexp (Rep 32 (Some 64) (Cls [caf, cAF, c09])))
      ''Generic hex-encoded secret'' 30]"


section \<open>Global search loops\<close>

lemma search_bounds:
  "search re len prev i rest = Some m \<Longrightarrow>
     i \<le> index m \<and> index m + length (m0 m) \<le> i + length rest"
proof (induction re len prev i rest rule: search.induct)
  case (1 re len prev i rest)
  show ?case
  proof (cases "ms (ignoreCase re) len (source re) (MState prev i rest [])")
    case Nil
    show ?thesis
    proof (cases rest)
      case Nil
      with \<open>ms (ignoreCase re) len (source re) (MState prev i rest []) = []\<close> "1.prems"
      show ?thesis by (simp add: search.simps)
    next
      case (Cons x xs)
      with \<open>ms (ignoreCase re) len (source re) (MState prev i rest []) = []\<close> "1.prems"
      have "search re len (Some x) (i + 1) xs = Some m" by (simp add: search.simps)
      with "1.IH" \<open>ms (ignoreCase re) len (source re) (MState prev i rest []) = []\<close> Cons
      have "i + 1 \<le> index m \<and> index m + length (m0 m) \<le> i + 1 + length xs" by simp
      with Cons show ?thesis by simp
    qed
  next
    case (Cons st sts)
    with "1.prems" show ?thesis by (auto simp: search.simps)
  qed
qed

lemma exec_bounds:
  "exec re text lastIndex = Some m \<Longrightarrow>
     lastIndex \<le> index m \<and> index m + length (m0 m) \<le> length text"
  unfolding exec_def by (auto split: if_splits dest!: search_bounds)

text \<open>
  \<open>while ((match = re.exec(text)) !== null) { ... }\<close> on a global \<open>RegExp\<close> whose
  \<open>lastIndex\<close> is \<open>lastIndex\<close>: the matches the loop body sees, in order.  \<open>exec\<close> moves
  \<open>lastIndex\<close> to the end of the match; after an empty match it stays where it is, the
  next call finds the same match, and the loop never ends: that is the value \<open>None\<close>.
\<close>

function execAll :: "RegExp \<Rightarrow> string \<Rightarrow> nat \<Rightarrow> RegExpExecArray list option" where
  "execAll re text lastIndex = (case exec re text lastIndex of
       None \<Rightarrow> Some []
     | Some m \<Rightarrow> if m0 m = [] then None
                 else map_option ((#) m) (execAll re text (index m + length (m0 m))))"
  by pat_completeness auto
termination
proof (relation "measure (\<lambda>(re, text, lastIndex). length text - lastIndex)")
  show "wf (measure (\<lambda>(re, text, lastIndex). length text - lastIndex))" by simp
next
  fix re :: RegExp and s :: string and lastIndex :: nat and m :: RegExpExecArray
  assume ex: "exec re s lastIndex = Some m" and ne: "m0 m \<noteq> []"
  from exec_bounds [OF ex] ne
  show "((re, s, index m + length (m0 m)), (re, s, lastIndex))
          \<in> measure (\<lambda>(re, text, lastIndex). length text - lastIndex)"
    by (cases "m0 m") auto
qed

declare execAll.simps [simp del]

section \<open>Pattern matcher (\<open>detection/patterns.ts\<close>)\<close>

record PatternMatcher =
  patterns :: "PatternDefinition list"
  pm_customPatterns :: "PatternDefinition list"

definition new_PatternMatcher :: PatternMatcher where
  "new_PatternMatcher = \<lparr>patterns = PATTERN_DEFINITIONS, pm_customPatterns = []\<rparr>"

datatype error = SyntaxError

text \<open>\<open>patterns.map(p => ({..., pattern: new RegExp(p.pattern, 'g'), ...}))\<close>: the first
  pattern text that does not compile throws, and nothing is assigned.\<close>

fun setCustomPatterns_map :: "CustomPattern list \<Rightarrow> error + PatternDefinition list" where
  "setCustomPatterns_map [] = Inr []"
| "setCustomPatterns_map (p # ps) = (case new_RegExp (cp_pattern p) False of
       None \<Rightarrow> Inl SyntaxError
     | Some re \<Rightarrow> (case setCustomPatterns_map ps of
          Inl e \<Rightarrow> Inl e
        | Inr ds \<Rightarrow> Inr (\<lparr>pd_name = cp_name p, pd_type = CUSTOM_PATTERN, pd_pattern = re,
             pd_description = (case cp_description p of
                 None \<Rightarrow> ''User-defined pattern''
               | Some d \<Rightarrow> if d = [] then ''User-defined pattern'' else d),
             minConfidence = 80\<rparr> # ds)))"

definition setCustomPatterns :: "CustomPattern list \<Rightarrow> PatternMatcher \<Rightarrow> error + PatternMatcher"
  where
  "setCustomPatterns ps pm = (case setCustomPatterns_map ps of
       Inl e \<Rightarrow> Inl e
     | Inr ds \<Rightarrow> Inr (pm\<lparr>pm_customPatterns := ds\<rparr>))"

definition rangesOverlap :: "Range \<Rightarrow> Range \<Rightarrow> bool" where
  "rangesOverlap range1 range2 =
     (r_start range1 < r_end range2 \<and> r_start range2 < r_end range1)"

definition identStart :: "citem list" where
  "identStart = [cAZ, caz, CChar CHR ''_'']"

definition identChar :: "citem list" where
  "identChar = [cAZ, caz, c09, CChar CHR ''_'']"

definition identifier_re :: regex where
  "identifier_re = Seq (Cls identStart) (Star (Cls identChar))"

definition assignmentPatterns :: "RegExp list" where
  "assignmentPatterns =
     [regexp (Seqs [Grp 1 identifier_re, Star ws, Cls [CChar CHR '':'', CChar CHR ''=''],
                    Star ws, Opt (Cls [CChar DQ, CChar SQ]), Eol]),
      regexp (Seqs [Chr DQ, Grp 1 (Plus (NCls [CChar DQ])), Chr DQ, Star ws, Chr CHR '':'',
                    Star ws, Opt (Cls [CChar DQ, CChar SQ]), Eol]),
      regexp (Seqs [Chr SQ, Grp 1 (Plus (NCls [CChar SQ])), Chr SQ, Star ws, Chr CHR '':'',
                    Star ws, Opt (Cls [CChar DQ, CChar SQ]), Eol])]"

fun findKeyName_loop :: "RegExp list \<Rightarrow> string \<Rightarrow> string option" where
  "findKeyName_loop [] beforeMatch = None"
| "findKeyName_loop (p # ps) beforeMatch = (case exec p beforeMatch 0 of
       Some m \<Rightarrow> group m 1
     | None \<Rightarrow> findKeyName_loop ps beforeMatch)"

definition findKeyName :: "string \<Rightarrow> nat \<Rightarrow> string option" where
  "findKeyName text matchIndex =
     (let lineStart = nat (js_index (lastIndexOfFrom text [LF] matchIndex) + 1);
          beforeMatch = substring text lineStart matchIndex
      in findKeyName_loop assignmentPatterns beforeMatch)"

definition findMatches_body ::
  "PatternDefinition \<Rightarrow> string \<Rightarrow> TextDocument \<Rightarrow> RegExpExecArray \<Rightarrow> SensitiveMatch list
     \<Rightarrow> SensitiveMatch list" where
  "findMatches_body pd text doc m acc =
     (let startPos = positionAt doc (int (index m));
          endPos = positionAt doc (int (index m + length (m0 m)))
      in if length (m0 m) < MIN_SECRET_LENGTH then acc
         else (let sensitiveMatch =
                 \<lparr>range_m = new_Range startPos endPos,
                  type_m = pd_type pd,
                  originalValue = m0 m,
                  confidence = minConfidence pd,
                  isMasked = True,
                  id_m = uri doc @ ''-'' @ toString (index m) @ ''-'' @ toString (length (m0 m)),
                  keyName = findKeyName text (index m)\<rparr>;
                   overlaps = list_ex (\<lambda>x. rangesOverlap (range_m x) (range_m sensitiveMatch)) acc
               in if \<not> overlaps then acc @ [sensitiveMatch] else acc))"

fun findMatches_loop ::
  "PatternDefinition list \<Rightarrow> string \<Rightarrow> TextDocument \<Rightarrow> SensitiveMatch list
     \<Rightarrow> SensitiveMatch list option" where
  "findMatches_loop [] text doc acc = Some acc"
| "findMatches_loop (pd # pds) text doc acc = (case execAll (pd_pattern pd) text 0 of
       None \<Rightarrow> None
     | Some found \<Rightarrow> findMatches_loop pds text doc (fold (findMatches_body pd text doc) found acc))"

definition findMatches :: "PatternMatcher \<Rightarrow> string \<Rightarrow> TextDocument \<Rightarrow> SensitiveMatch list option"
  where
  "findMatches pm text doc =
     (let allPatterns = patterns pm @ pm_customPatterns pm
      in findMatches_loop allPatterns text doc [])"

definition matchesSensitiveKeyword :: "string \<Rightarrow> bool" where
  "matchesSensitiveKeyword text =
     (let lowerText = toLowerCase text
      in list_ex (\<lambda>keyword. str_includes lowerText (toLowerCase keyword)) SENSITIVE_KEYWORDS)"


section \<open>Context analyzer (\<open>detection/contextAnalyzer.ts\<close>)\<close>

text \<open>
  \<open>path.basename\<close> and \<open>path.extname\<close> of the runtime, for paths whose separator is \<open>/\<close>
  (the paths of Windows, where the backslash separates too, are not covered).  Separators at the
  end of the path are dropped first.
\<close>

definition basename :: "string \<Rightarrow> string" where
  "basename p = rev (takeWhile (\<lambda>c. c \<noteq> CHR ''/'')
                       (dropWhile (\<lambda>c. c = CHR ''/'') (rev p)))"

definition extname :: "string \<Rightarrow> string" where
  "extname p = (let b = basename p in case lastIndexOf b ''.'' of
       None \<Rightarrow> []
     | Some k \<Rightarrow> if k = 0 \<or> b = ''..'' then [] else drop k b)"

definition isConfigFile :: "string \<Rightarrow> string \<Rightarrow> bool" where
  "isConfigFile fname extension =
     (let lowerName = toLowerCase fname
      in if List.member CONFIG_FILE_EXTENSIONS extension then True
         else list_ex (\<lambda>name. str_includes lowerName (toLowerCase name)) CONFIG_FILE_NAMES)"

definition isEnvFile :: "string \<Rightarrow> bool" where
  "isEnvFile fname =
     (let lowerName = toLowerCase fname
      in startsWith lowerName ''.env'' \<or> lowerName = ''env'' \<or> endsWith lowerName ''.env'')"

definition getContext :: "TextDocument \<Rightarrow> DetectionContext" where
  "getContext doc =
     (let fname = basename (fileName doc);
          fileExtension = toLowerCase (extname (fileName doc))
      in \<lparr>ctx_languageId = languageId doc,
          ctx_fileName = fname,
          ctx_fileExtension = fileExtension,
          ctx_isConfigFile = isConfigFile fname fileExtension,
          ctx_isEnvFile = isEnvFile fname\<rparr>)"

definition isSensitiveKeyName :: "string \<Rightarrow> bool" where
  "isSensitiveKeyName kn =
     (let lowerKey = toLowerCase kn
      in list_ex (\<lambda>keyword. str_includes lowerKey (toLowerCase keyword)) SENSITIVE_KEYWORDS)"

definition calculateConfidenceBoost :: "DetectionContext \<Rightarrow> string option \<Rightarrow> nat" where
  "calculateConfidenceBoost context kn =
     (let boost = 0;
          boost = (if ctx_isEnvFile context then boost + 20 else boost);
          boost = (if ctx_isConfigFile context then boost + 10 else boost);
          boost = (case kn of
                     None \<Rightarrow> boost
                   | Some k \<Rightarrow> if k \<noteq> [] \<and> isSensitiveKeyName k then boost + 15 else boost)
      in boost)"

definition stripQuotes :: "string \<Rightarrow> string" where
  "stripQuotes v =
     (if (startsWith v [DQ] \<and> endsWith v [DQ]) \<or> (startsWith v [SQ] \<and> endsWith v [SQ])
      then slice_1_m1 v else v)"

definition envKeyPattern :: RegExp where
  "envKeyPattern = regexp (Seqs [Bol, Cls identStart, Star (Cls identChar), Eol])"

text \<open>One iteration of the line loop of \<open>findEnvMatches\<close>: the match it pushes, if any.\<close>

definition findEnvMatches_line :: "TextDocument \<Rightarrow> nat \<Rightarrow> nat \<Rightarrow> string \<Rightarrow> SensitiveMatch option"
  where
  "findEnvMatches_line doc lineNum offset originalLine =
     (let line = (if endsWith originalLine [CR] then slice_0_m1 originalLine else originalLine)
      in if startsWith (trim line) ''#'' \<or> trim line = [] then None
         else (case indexOf line ''='' 0 of
             None \<Rightarrow> None
           | Some equalsIndex \<Rightarrow>
              (let kn = trim (substring line 0 equalsIndex);
                   rawValue = substringFrom line (equalsIndex + 1)
               in if exec envKeyPattern kn 0 = None then None
                  else (let v = trim rawValue;
                            valueForCheck = stripQuotes v
                        in if isSensitiveKeyName kn \<or> MIN_SECRET_LENGTH \<le> length valueForCheck
                           then (let valueStart = equalsIndex + 1;
                                     valueEnd = length line;
                                     startPos = positionAt doc (int (offset + valueStart));
                                     endPos = positionAt doc (int (offset + valueEnd))
                                 in Some \<lparr>range_m = new_Range startPos endPos,
                                          type_m = ENV_VALUE,
                                          originalValue = rawValue,
                                          confidence = (if isSensitiveKeyName kn then 85 else 50),
                                          isMasked = True,
                                          id_m = uri doc @ ''-env-'' @ toString lineNum,
                                          keyName = Some kn\<rparr>)
                           else None))))"

fun findEnvMatches_loop ::
  "TextDocument \<Rightarrow> string list \<Rightarrow> nat \<Rightarrow> nat \<Rightarrow> SensitiveMatch list \<Rightarrow> SensitiveMatch list"
  where
  "findEnvMatches_loop doc [] lineNum offset acc = acc"
| "findEnvMatches_loop doc (originalLine # rest) lineNum offset acc =
     findEnvMatches_loop doc rest (lineNum + 1) (offset + length originalLine + 1)
       (case findEnvMatches_line doc lineNum offset originalLine of
          None \<Rightarrow> acc
        | Some m \<Rightarrow> acc @ [m])"

definition findEnvMatches :: "TextDocument \<Rightarrow> string \<Rightarrow> SensitiveMatch list \<Rightarrow> SensitiveMatch list"
  where
  "findEnvMatches doc text acc = findEnvMatches_loop doc (split_lines text) 0 0 acc"

definition jsonPattern :: RegExp where
  "jsonPattern = regexp (Seqs [Chr DQ, Grp 1 (Plus (NCls [CChar DQ])), Chr DQ, Star ws,
     Chr CHR '':'', Star ws, Chr DQ, Grp 2 (Plus (NCls [CChar DQ])), Chr DQ])"

definition findJsonMatches_body ::
  "TextDocument \<Rightarrow> RegExpExecArray \<Rightarrow> SensitiveMatch list \<Rightarrow> SensitiveMatch list" where
  "findJsonMatches_body doc m acc = (case (group m 1, group m 2) of
       (Some kn, Some v) \<Rightarrow>
         if isSensitiveKeyName kn \<and> MIN_SECRET_LENGTH \<le> length v
         then (let valueStart = int (index m) + js_index (lastIndexOf (m0 m) ([DQ] @ v @ [DQ])) + 1;
                   startPos = positionAt doc valueStart;
                   endPos = positionAt doc (valueStart + int (length v))
               in acc @ [\<lparr>range_m = new_Range startPos endPos,
                           type_m = GENERIC_SECRET,
                           originalValue = v,
                           confidence = 75,
                           isMasked = True,
                           id_m = uri doc @ ''-json-'' @ toString (index m),
                           keyName = Some kn\<rparr>])
         else acc
     | _ \<Rightarrow> acc)"

definition findJsonMatches ::
  "TextDocument \<Rightarrow> string \<Rightarrow> SensitiveMatch list \<Rightarrow> SensitiveMatch list option" where
  "findJsonMatches doc text acc =
     map_option (\<lambda>found. fold (findJsonMatches_body doc) found acc) (execAll jsonPattern text 0)"

definition yamlPattern :: RegExp where
  "yamlPattern = regexp (Seqs [Bol, Grp 1 (Star ws),
     Grp 2 (Seq (Cls identStart) (Star (Cls [cAZ, caz, c09, CChar CHR ''_'', CChar CHR ''-'']))),
     Star ws, Chr CHR '':'', Star ws, Grp 3 (Plus Dot), Eol])"

definition findYamlMatches_line :: "TextDocument \<Rightarrow> nat \<Rightarrow> nat \<Rightarrow> string \<Rightarrow> SensitiveMatch option"
  where
  "findYamlMatches_line doc lineNum offset line =
     (if startsWith (trim line) ''#'' then None
      else (case exec yamlPattern line 0 of
          None \<Rightarrow> None
        | Some yamlMatch \<Rightarrow> (case (group yamlMatch 2, group yamlMatch 3) of
            (Some kn, Some g3) \<Rightarrow>
              (let v = stripQuotes (trim g3)
               in if isSensitiveKeyName kn \<and> MIN_SECRET_LENGTH \<le> length v
                  then (let valueStart = js_index (indexOf line g3 0);
                            startPos = positionAt doc (int offset + valueStart);
                            endPos = positionAt doc (int offset + valueStart + int (length g3))
                        in Some \<lparr>range_m = new_Range startPos endPos,
                                 type_m = GENERIC_SECRET,
                                 originalValue = g3,
                                 confidence = 70,
                                 isMasked = True,
                                 id_m = uri doc @ ''-yaml-'' @ toString lineNum,
                                 keyName = Some kn\<rparr>)
                  else None)
          | _ \<Rightarrow> None)))"

fun findYamlMatches_loop ::
  "TextDocument \<Rightarrow> string list \<Rightarrow> nat \<Rightarrow> nat \<Rightarrow> SensitiveMatch list \<Rightarrow> SensitiveMatch list"
  where
  "findYamlMatches_loop doc [] lineNum offset acc = acc"
| "findYamlMatches_loop doc (line # rest) lineNum offset acc =
     findYamlMatches_loop doc rest (lineNum + 1) (offset + length line + 1)
       (case findYamlMatches_line doc lineNum offset line of
          None \<Rightarrow> acc
        | Some m \<Rightarrow> acc @ [m])"

definition findYamlMatches :: "TextDocument \<Rightarrow> string \<Rightarrow> SensitiveMatch list \<Rightarrow> SensitiveMatch list"
  where
  "findYamlMatches doc text acc = findYamlMatches_loop doc (split_lines text) 0 0 acc"

definition quote3 :: "citem list" where
  "quote3 = [CChar DQ, CChar SQ, CChar BQ]"

definition quotedValue :: "regex list" where
  "quotedValue = [Cls quote3, Grp 2 (Plus (NCls quote3)), Cls quote3]"

definition declKeyword :: regex where
  "declKeyword = Alt (Lit ''const'') (Alt (Lit ''let'') (Lit ''var''))"

definition genericPatterns :: "RegExp list" where
  "genericPatterns =
     [regexp (Seqs ([declKeyword, Plus ws, Grp 1 identifier_re, Star ws, Chr CHR ''='', Star ws]
                    @ quotedValue)),
      regexp (Seqs ([Chr CHR ''.'', Grp 1 identifier_re, Star ws, Chr CHR ''='', Star ws]
                    @ quotedValue)),
      regexp (Seqs ([Grp 1 identifier_re, Star ws, Chr CHR '':'', Star ws] @ quotedValue)),
      regexp (Seqs ([Lit ''export'', Plus ws, declKeyword, Plus ws, Grp 1 identifier_re,
                     Star ws, Chr CHR ''='', Star ws] @ quotedValue)),
      regexp (Seqs [Lit ''process'', Chr CHR ''.'', Lit ''env'', Chr CHR ''.'',
                    Grp 1 identifier_re])]"

definition truthy :: "string option \<Rightarrow> bool" where
  "truthy v = (v \<noteq> None \<and> v \<noteq> Some [])"

text \<open>
  The body of the inner loop of \<open>findGenericMatches\<close>.  Every pattern captures group 1,
  so the case of an undefined key name with a value is not reached.
\<close>

definition findGenericMatches_body ::
  "TextDocument \<Rightarrow> RegExpExecArray \<Rightarrow> SensitiveMatch list \<Rightarrow> SensitiveMatch list" where
  "findGenericMatches_body doc m acc =
     (let kn = group m 1; v = group m 2
      in if \<not> truthy v \<and> truthy kn then acc
         else (case (kn, v) of
             (Some k, Some val) \<Rightarrow>
               if isSensitiveKeyName k \<and> val \<noteq> [] \<and> MIN_SECRET_LENGTH \<le> length val
               then (let fullMatch = m0 m;
                         valueInMatch = js_index (lastIndexOf fullMatch val);
                         valueStart = int (index m) + valueInMatch;
                         startPos = positionAt doc valueStart;
                         endPos = positionAt doc (valueStart + int (length val));
                         exists = list_ex (\<lambda>x.
                           (r_start (range_m x) = startPos \<and> r_end (range_m x) = endPos)
                           \<or> (r_start (range_m x) < endPos \<and> startPos < r_end (range_m x))) acc
                     in if \<not> exists
                        then acc @ [\<lparr>range_m = new_Range startPos endPos,
                                     type_m = GENERIC_SECRET,
                                     originalValue = val,
                                     confidence = 65,
                                     isMasked = True,
                                     id_m = uri doc @ ''-generic-'' @ toString (index m),
                                     keyName = Some k\<rparr>]
                        else acc)
               else acc
           | _ \<Rightarrow> acc))"

fun findGenericMatches_loop ::
  "RegExp list \<Rightarrow> TextDocument \<Rightarrow> string \<Rightarrow> SensitiveMatch list \<Rightarrow> SensitiveMatch list option"
  where
  "findGenericMatches_loop [] doc text acc = Some acc"
| "findGenericMatches_loop (p # ps) doc text acc = (case execAll p text 0 of
       None \<Rightarrow> None
     | Some found \<Rightarrow> findGenericMatches_loop ps doc text (fold (findGenericMatches_body doc) found acc))"

definition findGenericMatches ::
  "TextDocument \<Rightarrow> string \<Rightarrow> SensitiveMatch list \<Rightarrow> SensitiveMatch list option" where
  "findGenericMatches doc text acc = findGenericMatches_loop genericPatterns doc text acc"

definition findContextMatches :: "TextDocument \<Rightarrow> SensitiveMatch list option" where
  "findContextMatches doc =
     (let context = getContext doc;
          text = getText doc
      in if ctx_isEnvFile context then Some (findEnvMatches doc text [])
         else if ctx_languageId context = ''json'' \<or> ctx_fileExtension context = ''.json''
           then findJsonMatches doc text []
         else if ctx_languageId context = ''yaml'' \<or> ctx_fileExtension context = ''.yaml''
                 \<or> ctx_fileExtension context = ''.yml''
           then Some (findYamlMatches doc text [])
         else findGenericMatches doc text [])"


section \<open>Custom rules (\<open>detection/customRules.ts\<close>)\<close>

text \<open>\<open>compiledPatterns\<close> is a \<open>Map\<close> iterated in insertion order: an association list.\<close>

record CustomRulesManager =
  crm_customPatterns :: "CustomPattern list"
  crm_hiddenVariables :: "string list"
  crm_hiddenStrings :: "string list"
  compiledPatterns :: "(string \<times> RegExp) list"

text \<open>
  \<open>compilePatterns\<close>: a pattern text that does not compile is caught and reported with
  \<open>console.warn\<close>; the second component collects the warnings.  A warning ends with the
  text of the error, which depends on the runtime: its name stands for it.
\<close>

fun compilePatterns_loop ::
  "CustomPattern list \<Rightarrow> (string \<times> RegExp) list \<times> string list
     \<Rightarrow> (string \<times> RegExp) list \<times> string list" where
  "compilePatterns_loop [] acc = acc"
| "compilePatterns_loop (p # ps) (compiled, console) =
     compilePatterns_loop ps (case new_RegExp (cp_pattern p) False of
         Some re \<Rightarrow> (AList.update (cp_name p) re compiled, console)
       | None \<Rightarrow> (compiled, console @ [''VEIL: Invalid custom pattern '' @ [DQ] @ cp_name p
                                         @ [DQ] @ '': SyntaxError'']))"

definition compilePatterns :: "CustomRulesManager \<Rightarrow> CustomRulesManager \<times> string list" where
  "compilePatterns crm =
     (case compilePatterns_loop (crm_customPatterns crm) ([], []) of
        (compiled, console) \<Rightarrow> (crm\<lparr>compiledPatterns := compiled\<rparr>, console))"

definition loadFromSettings :: "VeilSettings \<Rightarrow> CustomRulesManager \<Rightarrow> CustomRulesManager \<times> string list"
  where
  "loadFromSettings config crm =
     compilePatterns (crm\<lparr>crm_customPatterns := customPatterns config,
                          crm_hiddenVariables := hiddenVariables config,
                          crm_hiddenStrings := hiddenStrings config\<rparr>)"

definition findPatternMatches_body ::
  "TextDocument \<Rightarrow> string \<Rightarrow> RegExpExecArray \<Rightarrow> SensitiveMatch list \<Rightarrow> SensitiveMatch list"
  where
  "findPatternMatches_body doc name m acc =
     (if length (m0 m) < MIN_SECRET_LENGTH then acc
      else (let startPos = positionAt doc (int (index m));
                endPos = positionAt doc (int (index m + length (m0 m)))
            in acc @ [\<lparr>range_m = new_Range startPos endPos,
                        type_m = CUSTOM_PATTERN,
                        originalValue = m0 m,
                        confidence = 90,
                        isMasked = True,
                        id_m = uri doc @ ''-custom-'' @ name @ ''-'' @ toString (index m),
                        keyName = None\<rparr>]))"

fun findPatternMatches_loop ::
  "(string \<times> RegExp) list \<Rightarrow> TextDocument \<Rightarrow> string \<Rightarrow> SensitiveMatch list
     \<Rightarrow> SensitiveMatch list option" where
  "findPatternMatches_loop [] doc text acc = Some acc"
| "findPatternMatches_loop ((name, pat) # ps) doc text acc = (case execAll pat text 0 of
       None \<Rightarrow> None
     | Some found \<Rightarrow>
         findPatternMatches_loop ps doc text (fold (findPatternMatches_body doc name) found acc))"

definition findPatternMatches ::
  "CustomRulesManager \<Rightarrow> TextDocument \<Rightarrow> string \<Rightarrow> SensitiveMatch list
     \<Rightarrow> SensitiveMatch list option" where
  "findPatternMatches crm doc text acc = findPatternMatches_loop (compiledPatterns crm) doc text acc"

text \<open>
  The two expressions built for a hidden variable name.  \<open>escapeRegex\<close> puts a backslash
  before every character with a meaning in a pattern, so the name is matched character
  by character: \<open>Lit variable\<close>.
\<close>

definition quote2 :: "citem list" where
  "quote2 = [CChar DQ, CChar SQ]"

definition hiddenVariablePatterns :: "string \<Rightarrow> RegExp list" where
  "hiddenVariablePatterns variable =
     [regexp_i (Seqs [Lit variable, Star ws, Cls [CChar CHR '':'', CChar CHR ''=''], Star ws,
                      Cls quote2, Grp 1 (Plus (NCls quote2)), Cls quote2]),
      regexp_i (Seqs [Cls quote2, Lit variable, Cls quote2, Star ws, Chr CHR '':'', Star ws,
                      Cls quote2, Grp 1 (Plus (NCls quote2)), Cls quote2])]"

definition findHiddenVariableMatches_body ::
  "TextDocument \<Rightarrow> string \<Rightarrow> RegExpExecArray \<Rightarrow> SensitiveMatch list \<Rightarrow> SensitiveMatch list"
  where
  "findHiddenVariableMatches_body doc variable m acc = (case group m 1 of
       None \<Rightarrow> acc
     | Some v \<Rightarrow>
         if v \<noteq> [] \<and> MIN_SECRET_LENGTH \<le> length v
         then (let valueStart = int (index m) + js_index (lastIndexOf (m0 m) v);
                   startPos = positionAt doc valueStart;
                   endPos = positionAt doc (valueStart + int (length v))
               in acc @ [\<lparr>range_m = new_Range startPos endPos,
                           type_m = CUSTOM_PATTERN,
                           originalValue = v,
                           confidence = 95,
                           isMasked = True,
                           id_m = uri doc @ ''-var-'' @ variable @ ''-'' @ toString (index m),
                           keyName = Some variable\<rparr>])
         else acc)"

fun findHiddenVariableMatches_patterns ::
  "RegExp list \<Rightarrow> TextDocument \<Rightarrow> string \<Rightarrow> string \<Rightarrow> SensitiveMatch list
     \<Rightarrow> SensitiveMatch list option" where
  "findHiddenVariableMatches_patterns [] doc text variable acc = Some acc"
| "findHiddenVariableMatches_patterns (p # ps) doc text variable acc =
     (case execAll p text 0 of
        None \<Rightarrow> None
      | Some found \<Rightarrow> findHiddenVariableMatches_patterns ps doc text variable
                        (fold (findHiddenVariableMatches_body doc variable) found acc))"

fun findHiddenVariableMatches_loop ::
  "string list \<Rightarrow> TextDocument \<Rightarrow> string \<Rightarrow> SensitiveMatch list \<Rightarrow> SensitiveMatch list option"
  where
  "findHiddenVariableMatches_loop [] doc text acc = Some acc"
| "findHiddenVariableMatches_loop (variable # vs) doc text acc =
     (case findHiddenVariableMatches_patterns (hiddenVariablePatterns variable) doc text
             variable acc of
        None \<Rightarrow> None
      | Some acc' \<Rightarrow> findHiddenVariableMatches_loop vs doc text acc')"

definition findHiddenVariableMatches ::
  "CustomRulesManager \<Rightarrow> TextDocument \<Rightarrow> string \<Rightarrow> SensitiveMatch list
     \<Rightarrow> SensitiveMatch list option" where
  "findHiddenVariableMatches crm doc text acc =
     findHiddenVariableMatches_loop (crm_hiddenVariables crm) doc text acc"

lemma indexOf_aux_bounds:
  "indexOf_aux p xs k = Some i \<Longrightarrow> k \<le> i \<and> i + length p \<le> k + length xs"
proof (induction xs arbitrary: k)
  case Nil
  then show ?case by (simp split: if_splits)
next
  case (Cons x xs)
  show ?case
  proof (cases "startsWith (x # xs) p")
    case True
    then have "length (take (length p) (x # xs)) = length p"
      unfolding startsWith_def by simp
    then have "length p \<le> length (x # xs)"
      by (simp only: length_take)
    with True Cons.prems show ?thesis by simp
  next
    case False
    with Cons.prems have "indexOf_aux p xs (k + 1) = Some i" by simp
    from Cons.IH [OF this] show ?thesis by simp
  qed
qed

lemma indexOf_bounds:
  "indexOf s p from = Some i \<Longrightarrow> p \<noteq> [] \<Longrightarrow> from \<le> i \<and> i + length p \<le> length s"
proof (cases "from \<le> length s")
  case True
  assume "indexOf s p from = Some i"
  with True show ?thesis
    unfolding indexOf_def by (auto dest!: indexOf_aux_bounds)
next
  case False
  assume "indexOf s p from = Some i" and "p \<noteq> []"
  with False show ?thesis
    unfolding indexOf_def by simp
qed

text \<open>
  The \<open>while\<close> loop of \<open>findHiddenStringMatches\<close> for one string, from the search position
  \<open>idx\<close>.  Strings shorter than 3 characters are skipped before the loop starts.
\<close>

function findHiddenStringMatches_while ::
  "TextDocument \<Rightarrow> string \<Rightarrow> string \<Rightarrow> nat \<Rightarrow> SensitiveMatch list \<Rightarrow> SensitiveMatch list"
  where
  "findHiddenStringMatches_while doc text str idx acc =
     (if length str < 3 then acc
      else (case indexOf text str idx of
          None \<Rightarrow> acc
        | Some i \<Rightarrow>
            (let startPos = positionAt doc (int i);
                 endPos = positionAt doc (int (i + length str));
                 overlaps = list_ex (\<lambda>x.
                   (r_start (range_m x) < endPos \<or> r_start (range_m x) = endPos)
                   \<and> (startPos < r_end (range_m x) \<or> r_end (range_m x) = startPos)) acc
             in findHiddenStringMatches_while doc text str (i + length str)
                  (if \<not> overlaps
                   then acc @ [\<lparr>range_m = new_Range startPos endPos,
                                type_m = CUSTOM_PATTERN,
                                originalValue = str,
                                confidence = 100,
                                isMasked = True,
                                id_m = uri doc @ ''-str-'' @ toString i,
                                keyName = None\<rparr>]
                   else acc))))"
  by pat_completeness auto
termination
proof (relation "measure (\<lambda>(doc, text, str, idx, acc). Suc (length text) - idx)")
  show "wf (measure (\<lambda>(doc :: TextDocument, text :: string, str :: string, idx :: nat,
                       acc :: SensitiveMatch list). Suc (length text) - idx))"
    by simp
next
  fix doc :: TextDocument and s str :: string and idx i :: nat and acc :: "SensitiveMatch list"
    and x xa xb
  assume "\<not> length str < 3" and "indexOf s str idx = Some i"
  moreover from this have "str \<noteq> []" by auto
  ultimately have "idx \<le> i \<and> i + length str \<le> length s" and "3 \<le> length str"
    using indexOf_bounds [of s str idx i] by auto
  then show "((doc, s, str, i + length str,
               if \<not> xb then acc @ [\<lparr>range_m = new_Range x xa, type_m = CUSTOM_PATTERN,
                   originalValue = str, confidence = 100, isMasked = True,
                   id_m = uri doc @ ''-str-'' @ toString i, keyName = None\<rparr>] else acc),
              (doc, s, str, idx, acc))
             \<in> measure (\<lambda>(doc, text, str, idx, acc). Suc (length text) - idx)"
    by (simp only: in_measure prod.case) arith
qed

declare findHiddenStringMatches_while.simps [simp del]

definition findHiddenStringMatches ::
  "CustomRulesManager \<Rightarrow> TextDocument \<Rightarrow> string \<Rightarrow> SensitiveMatch list \<Rightarrow> SensitiveMatch list"
  where
  "findHiddenStringMatches crm doc text acc =
     fold (\<lambda>str a. findHiddenStringMatches_while doc text str 0 a) (crm_hiddenStrings crm) acc"

definition findCustomMatches :: "CustomRulesManager \<Rightarrow> TextDocument \<Rightarrow> SensitiveMatch list option"
  where
  "findCustomMatches crm doc =
     (let text = getText doc
      in case findPatternMatches crm doc text [] of
           None \<Rightarrow> None
         | Some acc1 \<Rightarrow> (case findHiddenVariableMatches crm doc text acc1 of
              None \<Rightarrow> None
            | Some acc2 \<Rightarrow> Some (findHiddenStringMatches crm doc text acc2)))"


section \<open>Detection engine (\<open>detection/detector.ts\<close>)\<close>

text \<open>
  The engine and the two stateful singletons it drives.  \<open>console\<close> collects the
  warnings written with \<open>console.warn\<close>.
\<close>

record DetectionEngine =
  documentStates :: "string \<rightharpoonup> DocumentMaskState"
  settings :: "VeilSettings option"
  patternMatcher :: PatternMatcher
  customRulesManager :: CustomRulesManager
  console :: "string list"

text \<open>
  \<open>loadSettings\<close> assigns the settings, then hands the custom patterns to the pattern
  matcher, then reloads the custom rules.  \<open>setCustomPatterns\<close> has no handler around
  \<open>new RegExp\<close>: when it throws, the exception leaves \<open>loadSettings\<close> with the settings
  already assigned and the two singletons as they were.
\<close>

definition loadSettings :: "VeilSettings \<Rightarrow> DetectionEngine \<Rightarrow> error option \<times> DetectionEngine"
  where
  "loadSettings config e =
     (let e1 = e\<lparr>settings := Some config\<rparr>
      in case setCustomPatterns (customPatterns config) (patternMatcher e1) of
           Inl err \<Rightarrow> (Some err, e1)
         | Inr pm \<Rightarrow>
            (case loadFromSettings config (customRulesManager e1) of
               (crm, warnings) \<Rightarrow>
                 (None, e1\<lparr>patternMatcher := pm, customRulesManager := crm,
                            console := console e1 @ warnings\<rparr>)))"

text \<open>The loop \<open>for (const c of candidates) if (!allMatches.some(overlaps c)) allMatches.push(c)\<close>.\<close>

definition addNonOverlapping :: "SensitiveMatch list \<Rightarrow> SensitiveMatch list \<Rightarrow> SensitiveMatch list"
  where
  "addNonOverlapping candidates allMatches =
     fold (\<lambda>c acc. if list_ex (\<lambda>x. rangesOverlap (range_m x) (range_m c)) acc
                    then acc else acc @ [c]) candidates allMatches"

definition applyBoost :: "DetectionContext \<Rightarrow> SensitiveMatch \<Rightarrow> SensitiveMatch" where
  "applyBoost context m =
     (let boost = calculateConfidenceBoost context (keyName m)
      in m\<lparr>confidence := min 100 (confidence m + boost)\<rparr>)"

fun mergeMatchStates ::
  "(string \<rightharpoonup> bool) option \<Rightarrow> SensitiveMatch list \<Rightarrow> (string \<rightharpoonup> bool)
     \<Rightarrow> (string \<rightharpoonup> bool) \<times> SensitiveMatch list" where
  "mergeMatchStates existingStates [] newStates = (newStates, [])"
| "mergeMatchStates existingStates (m # rest) newStates =
     (let existingState = (case existingStates of None \<Rightarrow> None | Some ex \<Rightarrow> ex (id_m m));
          newStates' = newStates(id_m m \<mapsto> (case existingState of None \<Rightarrow> True | Some b \<Rightarrow> b));
          m' = m\<lparr>isMasked := (case newStates' (id_m m) of None \<Rightarrow> True | Some b \<Rightarrow> b)\<rparr>
      in case mergeMatchStates existingStates rest newStates' of
           (states, ms') \<Rightarrow> (states, m' # ms'))"

text \<open>
  \<open>collectMatches\<close> is the part of \<open>scanDocument\<close> before the boost: the assembly of
  \<open>allMatches\<close> from the three detectors, in the order the file type selects.
\<close>

definition collectMatches :: "DetectionEngine \<Rightarrow> TextDocument \<Rightarrow> SensitiveMatch list option"
  where
  "collectMatches e doc =
     (let text = getText doc;
          context = getContext doc
      in case (if ctx_isEnvFile context
               then (case findContextMatches doc of
                       None \<Rightarrow> None
                     | Some contextMatches \<Rightarrow>
                        (case findMatches (patternMatcher e) text doc of
                           None \<Rightarrow> None
                         | Some patternMatches \<Rightarrow>
                             Some (addNonOverlapping patternMatches contextMatches)))
               else (case findMatches (patternMatcher e) text doc of
                       None \<Rightarrow> None
                     | Some patternMatches \<Rightarrow>
                        (case findContextMatches doc of
                           None \<Rightarrow> None
                         | Some contextMatches \<Rightarrow>
                             Some (addNonOverlapping contextMatches patternMatches)))) of
           None \<Rightarrow> None
         | Some allMatches \<Rightarrow>
            (case findCustomMatches (customRulesManager e) doc of
               None \<Rightarrow> None
             | Some customMatches \<Rightarrow> Some (addNonOverlapping customMatches allMatches)))"

text \<open>
  \<open>scanDocument document\<close> at the time \<open>now\<close>.  The result is \<open>None\<close> when a search loop
  of a detector does not end; otherwise the returned matches and the engine after the
  call.  The returned array is the one stored in the document state.
\<close>

definition scanDocument ::
  "TextDocument \<Rightarrow> nat \<Rightarrow> DetectionEngine \<Rightarrow> (SensitiveMatch list \<times> DetectionEngine) option"
  where
  "scanDocument doc now e =
     (if \<not> (case settings e of None \<Rightarrow> False | Some s \<Rightarrow> enabled s) then Some ([], e)
      else (case collectMatches e doc of
          None \<Rightarrow> None
        | Some allMatches \<Rightarrow>
           (let context = getContext doc;
                boosted = map (applyBoost context) allMatches;
                sorted = sort_key (\<lambda>m. r_start (range_m m)) boosted;
                existingState = documentStates e (uri doc)
            in case mergeMatchStates (map_option matchStates existingState) sorted Map.empty of
                 (states, final) \<Rightarrow>
                   Some (final,
                         e\<lparr>documentStates := (documentStates e)(uri doc \<mapsto>
                              \<lparr>ds_uri = uri doc,
                               fileMasked = (case existingState of None \<Rightarrow> True
                                             | Some st \<Rightarrow> fileMasked st),
                               matchStates = states,
                               matches = final,
                               lastScan = now\<rparr>)\<rparr>))))"

definition getDocumentState :: "DetectionEngine \<Rightarrow> string \<Rightarrow> DocumentMaskState option" where
  "getDocumentState e u = documentStates e u"

text \<open>\<open>state.matches.find(m => m.id === matchId)\<close>, followed by the update of that match.\<close>

fun updateFirst :: "string \<Rightarrow> bool \<Rightarrow> SensitiveMatch list \<Rightarrow> SensitiveMatch list" where
  "updateFirst matchId b [] = []"
| "updateFirst matchId b (m # rest) =
     (if id_m m = matchId then m\<lparr>isMasked := b\<rparr> # rest else m # updateFirst matchId b rest)"

definition toggleMatchMask :: "string \<Rightarrow> string \<Rightarrow> DetectionEngine \<Rightarrow> bool \<times> DetectionEngine"
  where
  "toggleMatchMask u matchId e = (case documentStates e u of
       None \<Rightarrow> (False, e)
     | Some state \<Rightarrow>
        (let currentState = (case matchStates state matchId of None \<Rightarrow> True | Some b \<Rightarrow> b);
             state' = state\<lparr>matchStates := (matchStates state)(matchId \<mapsto> \<not> currentState),
                            matches := updateFirst matchId (\<not> currentState) (matches state)\<rparr>
         in (\<not> currentState, e\<lparr>documentStates := (documentStates e)(u \<mapsto> state')\<rparr>)))"

text \<open>The loop \<open>for (const match of state.matches)\<close> that sets every flag to \<open>b\<close>.\<close>

definition setAll :: "bool \<Rightarrow> DocumentMaskState \<Rightarrow> DocumentMaskState" where
  "setAll b state =
     state\<lparr>fileMasked := b,
           matchStates := fold (\<lambda>m states. states(id_m m \<mapsto> b)) (matches state)
                            (matchStates state),
           matches := map (\<lambda>m. m\<lparr>isMasked := b\<rparr>) (matches state)\<rparr>"

definition toggleFileMask :: "string \<Rightarrow> DetectionEngine \<Rightarrow> bool \<times> DetectionEngine" where
  "toggleFileMask u e = (case documentStates e u of
       None \<Rightarrow> (True, e)
     | Some state \<Rightarrow>
        (let state' = setAll (\<not> fileMasked state) state
         in (fileMasked state', e\<lparr>documentStates := (documentStates e)(u \<mapsto> state')\<rparr>)))"

definition maskAll :: "string \<Rightarrow> DetectionEngine \<Rightarrow> DetectionEngine" where
  "maskAll u e = (case documentStates e u of
       None \<Rightarrow> e
     | Some state \<Rightarrow> e\<lparr>documentStates := (documentStates e)(u \<mapsto> setAll True state)\<rparr>)"

definition revealAll :: "string \<Rightarrow> DetectionEngine \<Rightarrow> DetectionEngine" where
  "revealAll u e = (case documentStates e u of
       None \<Rightarrow> e
     | Some state \<Rightarrow> e\<lparr>documentStates := (documentStates e)(u \<mapsto> setAll False state)\<rparr>)"

definition getMatches :: "DetectionEngine \<Rightarrow> string \<Rightarrow> SensitiveMatch list" where
  "getMatches e u = (case documentStates e u of None \<Rightarrow> [] | Some state \<Rightarrow> matches state)"

definition clearDocumentState :: "string \<Rightarrow> DetectionEngine \<Rightarrow> DetectionEngine" where
  "clearDocumentState u e = e\<lparr>documentStates := (documentStates e)(u := None)\<rparr>"

text \<open>
  The state of the program after its modules are loaded with the configuration \<open>config\<close>:
  the custom rules manager is constructed first and loads its rules, then the engine is
  constructed and calls \<open>loadSettings\<close>.
\<close>

definition startup :: "VeilSettings \<Rightarrow> error option \<times> DetectionEngine" where
  "startup config =
     (case loadFromSettings config \<lparr>crm_customPatterns = [], crm_hiddenVariables = [],
                                    crm_hiddenStrings = [], compiledPatterns = []\<rparr> of
        (crm, warnings) \<Rightarrow>
          loadSettings config \<lparr>documentStates = Map.empty, settings = None,
                               patternMatcher = new_PatternMatcher,
                               customRulesManager = crm, console = warnings\<rparr>)"

definition defaultSettings :: VeilSettings where
  "defaultSettings = \<lparr>enabled = True, screenShareMode = False, maskCharacter = ''*'',
     hoverToReveal = True, revealDuration = 5000, maskUrls = True, customPatterns = [],
     hiddenVariables = [], hiddenStrings = []\<rparr>"

section \<open>Properties of the document states\<close>

text \<open>
  The flag a rescan gives to the identity \<open>i\<close>, from the flags stored before it, and what
  \<open>scanDocument\<close> does to the assembled list: boost, sort, flags.
\<close>

definition priorFlag :: "(string \<rightharpoonup> bool) option \<Rightarrow> string \<Rightarrow> bool" where
  "priorFlag existingStates i = (case existingStates of None \<Rightarrow> True
     | Some ex \<Rightarrow> (case ex i of None \<Rightarrow> True | Some b \<Rightarrow> b))"

definition finalizeMatches ::
  "DetectionEngine \<Rightarrow> TextDocument \<Rightarrow> SensitiveMatch list \<Rightarrow> SensitiveMatch list" where
  "finalizeMatches e doc allMatches =
     map (\<lambda>m. m\<lparr>isMasked := priorFlag (map_option matchStates (documentStates e (uri doc))) (id_m m)\<rparr>)
       (sort_key (\<lambda>m. r_start (range_m m)) (map (applyBoost (getContext doc)) allMatches))"

text \<open>A document state is consistent when the flag of every match is the one of the flag map.\<close>

definition stateConsistent :: "DocumentMaskState \<Rightarrow> bool" where
  "stateConsistent st = (\<forall>m \<in> set (matches st). matchStates st (id_m m) = Some (isMasked m))"

text \<open>Example inputs: the engine after start-up with the default settings, and a file \<open>.env\<close>.\<close>

definition eng0 :: DetectionEngine where
  "eng0 = snd (startup defaultSettings)"

definition docEnv :: TextDocument where
  "docEnv = \<lparr>getText = ''API_KEY=abc'', uri = ''file:///p/.env'', fileName = ''/p/.env'',
     languageId = ''dotenv''\<rparr>"

definition docEmpty :: TextDocument where
  "docEmpty = \<lparr>getText = [], uri = ''file:///p/.env'', fileName = ''/p/.env'',
     languageId = ''dotenv''\<rparr>"

definition matchEnv :: SensitiveMatch where
  "matchEnv = \<lparr>range_m = \<lparr>r_start = 8, r_end = 11\<rparr>, type_m = ENV_VALUE,
      originalValue = ''abc'', confidence = 85, isMasked = True,
      id_m = ''file:///p/.env-env-0'', keyName = Some ''API_KEY''\<rparr>"

definition engEnv :: DetectionEngine where
  "engEnv = snd (the (scanDocument docEnv 0 eng0))"

definition stateEnv :: DocumentMaskState where
  "stateEnv = the (documentStates engEnv (uri docEnv))"

definition engOff :: DetectionEngine where
  "engOff = snd (loadSettings (defaultSettings\<lparr>enabled := False\<rparr>) engEnv)"

definition engRevealed :: DetectionEngine where
  "engRevealed = revealAll (uri docEnv) (snd (the (scanDocument docEmpty 0 eng0)))"

definition engToggled :: DetectionEngine where
  "engToggled = snd (toggleMatchMask (uri docEnv) ''file:///p/.env-env-0'' engEnv)"

definition engRescanned :: DetectionEngine where
  "engRescanned = snd (the (scanDocument docEnv 1 engToggled))"

lemma mergeMatchStates_result:
  "mergeMatchStates ex xs ns = (states, res) \<Longrightarrow>
     res = map (\<lambda>m. m\<lparr>isMasked := priorFlag ex (id_m m)\<rparr>) xs
     \<and> states = (\<lambda>i. if i \<in> id_m ` set xs then Some (priorFlag ex i) else ns i)"
proof (induction xs arbitrary: ns states res)
  case Nil
  then show ?case by auto
next
  case (Cons m rest)
  let ?ns' = "ns(id_m m \<mapsto> priorFlag ex (id_m m))"
  obtain st2 ms2 where rec: "mergeMatchStates ex rest ?ns' = (st2, ms2)"
    by (cases "mergeMatchStates ex rest ?ns'") auto
  have flag: "(case (case ex of None \<Rightarrow> None | Some e \<Rightarrow> e (id_m m)) of None \<Rightarrow> True | Some b \<Rightarrow> b)
              = priorFlag ex (id_m m)"
    by (simp add: priorFlag_def split: option.splits)
  from Cons.prems rec flag
  have eqs: "states = st2" "res = m\<lparr>isMasked := priorFlag ex (id_m m)\<rparr> # ms2"
    by (auto simp: Let_def)
  from Cons.IH [OF rec] eqs show ?case
    by (auto simp: fun_eq_iff)
qed

lemma scanDocument_cases:
  assumes "scanDocument doc now e = Some (res, e')"
  shows "(res = [] \<and> e' = e \<and> \<not> (case settings e of None \<Rightarrow> False | Some s \<Rightarrow> enabled s))
       \<or> (\<exists>allMatches. collectMatches e doc = Some allMatches
             \<and> res = finalizeMatches e doc allMatches
             \<and> documentStates e' (uri doc) =
                 Some \<lparr>ds_uri = uri doc,
                       fileMasked = (case documentStates e (uri doc) of None \<Rightarrow> True
                                     | Some st \<Rightarrow> fileMasked st),
                       matchStates = (\<lambda>i. if i \<in> id_m ` set res
                          then Some (priorFlag (map_option matchStates (documentStates e (uri doc))) i)
                          else None),
                       matches = res, lastScan = now\<rparr>)"
proof (cases "case settings e of None \<Rightarrow> False | Some s \<Rightarrow> enabled s")
  case False
  with assms show ?thesis by (simp add: scanDocument_def)
next
  case True
  with assms obtain allMatches where cm: "collectMatches e doc = Some allMatches"
    by (auto simp: scanDocument_def split: option.splits)
  let ?sorted = "sort_key (\<lambda>m. r_start (range_m m)) (map (applyBoost (getContext doc)) allMatches)"
  let ?ex = "map_option matchStates (documentStates e (uri doc))"
  obtain states final where mg: "mergeMatchStates ?ex ?sorted Map.empty = (states, final)"
    by (cases "mergeMatchStates ?ex ?sorted Map.empty") auto
  from mergeMatchStates_result [OF mg]
  have fin: "final = finalizeMatches e doc allMatches"
    and st: "states = (\<lambda>i. if i \<in> id_m ` set ?sorted then Some (priorFlag ?ex i) else None)"
    by (simp_all add: finalizeMatches_def)
  have ids: "id_m ` set final = id_m ` set ?sorted"
    unfolding fin finalizeMatches_def by (auto simp: image_iff)
  from assms True cm mg have "res = final"
    and "documentStates e' (uri doc) = Some \<lparr>ds_uri = uri doc,
           fileMasked = (case documentStates e (uri doc) of None \<Rightarrow> True | Some st \<Rightarrow> fileMasked st),
           matchStates = states, matches = final, lastScan = now\<rparr>"
    by (auto simp: scanDocument_def Let_def)
  with cm fin st ids show ?thesis by auto
qed

lemma scanDocument_enabled:
  assumes "scanDocument doc now e = Some (res, e')"
    and "case settings e of None \<Rightarrow> False | Some s \<Rightarrow> enabled s"
  shows "\<exists>allMatches. collectMatches e doc = Some allMatches
           \<and> res = finalizeMatches e doc allMatches"
  using scanDocument_cases [OF assms(1)] assms(2) by auto

lemma scanDocument_frame:
  assumes "scanDocument doc now e = Some (res, e')"
  shows "settings e' = settings e \<and> patternMatcher e' = patternMatcher e
       \<and> customRulesManager e' = customRulesManager e \<and> console e' = console e"
proof (cases "case settings e of None \<Rightarrow> False | Some s \<Rightarrow> enabled s")
  case False
  with assms show ?thesis by (simp add: scanDocument_def)
next
  case True
  with assms obtain d where "e' = e\<lparr>documentStates := d\<rparr>"
    by (auto simp: scanDocument_def Let_def split: option.splits prod.splits)
  then show ?thesis by simp
qed

lemma scanDocument_other:
  assumes "scanDocument doc now e = Some (res, e')" and "u \<noteq> uri doc"
  shows "documentStates e' u = documentStates e u"
proof (cases "case settings e of None \<Rightarrow> False | Some s \<Rightarrow> enabled s")
  case False
  with assms show ?thesis by (simp add: scanDocument_def)
next
  case True
  with assms obtain d where "e' = e\<lparr>documentStates := (documentStates e)(uri doc \<mapsto> d)\<rparr>"
    by (auto simp: scanDocument_def Let_def split: option.splits prod.splits)
  with assms(2) show ?thesis by simp
qed

lemma scanDocument_consistent:
  assumes "scanDocument doc now e = Some (res, e')"
    and "case settings e of None \<Rightarrow> False | Some s \<Rightarrow> enabled s"
  shows "\<exists>st. documentStates e' (uri doc) = Some st \<and> matches st = res \<and> stateConsistent st"
proof -
  from scanDocument_cases [OF assms(1)] assms(2)
  obtain allMatches where res: "res = finalizeMatches e doc allMatches"
    and st: "documentStates e' (uri doc) =
                 Some \<lparr>ds_uri = uri doc,
                       fileMasked = (case documentStates e (uri doc) of None \<Rightarrow> True
                                     | Some st \<Rightarrow> fileMasked st),
                       matchStates = (\<lambda>i. if i \<in> id_m ` set res
                          then Some (priorFlag (map_option matchStates (documentStates e (uri doc))) i)
                          else None),
                       matches = res, lastScan = now\<rparr>"
    by auto
  have "\<forall>m \<in> set res. isMasked m = priorFlag (map_option matchStates (documentStates e (uri doc))) (id_m m)"
    unfolding res finalizeMatches_def by auto
  with st show ?thesis
    by (auto simp: stateConsistent_def)
qed

lemma collectMatches_cong:
  "patternMatcher e1 = patternMatcher e2 \<Longrightarrow> customRulesManager e1 = customRulesManager e2
     \<Longrightarrow> collectMatches e1 doc = collectMatches e2 doc"
  by (simp add: collectMatches_def cong: option.case_cong if_cong)

lemma revealAll_frame:
  "settings (revealAll u e) = settings e \<and> patternMatcher (revealAll u e) = patternMatcher e
     \<and> customRulesManager (revealAll u e) = customRulesManager e"
  by (simp add: revealAll_def split: option.splits)

lemma toggleMatchMask_frame:
  "settings (snd (toggleMatchMask u i e)) = settings e
     \<and> patternMatcher (snd (toggleMatchMask u i e)) = patternMatcher e
     \<and> customRulesManager (snd (toggleMatchMask u i e)) = customRulesManager e"
  by (simp add: toggleMatchMask_def Let_def split: option.splits)

lemma updateFirst_absent:
  "matchId \<notin> id_m ` set xs \<Longrightarrow> updateFirst matchId b xs = xs"
  by (induction xs) auto

lemma updateFirst_twice:
  "\<forall>m \<in> set xs. id_m m = matchId \<longrightarrow> isMasked m = b \<Longrightarrow>
     updateFirst matchId b (updateFirst matchId b' xs) = xs"
  by (induction xs) auto

subsection \<open>The example scans\<close>

lemma settings_eng0: "settings eng0 = Some defaultSettings"
  by code_simp

lemma enabled_eng0: "case settings eng0 of None \<Rightarrow> False | Some s \<Rightarrow> enabled s"
  by (simp add: settings_eng0 defaultSettings_def)

lemma documentStates_eng0: "documentStates eng0 u = None"
  by (simp add: eng0_def startup_def loadSettings_def Let_def split: prod.splits sum.splits)

lemma collectMatches_docEnv: "collectMatches eng0 docEnv = Some [matchEnv]"
  by code_simp

lemma collectMatches_docEmpty: "collectMatches eng0 docEmpty = Some []"
  by code_simp

lemma boost_matchEnv: "applyBoost (getContext docEnv) matchEnv = matchEnv\<lparr>confidence := 100\<rparr>"
  by code_simp

lemma scan_docEnv:
  "scanDocument docEnv 0 eng0 = Some ([matchEnv\<lparr>confidence := 100\<rparr>], engEnv)"
proof -
  have "\<exists>e'. scanDocument docEnv 0 eng0 = Some ([matchEnv\<lparr>confidence := 100\<rparr>], e')"
    using enabled_eng0 collectMatches_docEnv boost_matchEnv documentStates_eng0
    by (simp add: scanDocument_def Let_def matchEnv_def)
  then show ?thesis by (auto simp: engEnv_def)
qed

lemma stateEnv_facts:
  "documentStates engEnv (uri docEnv) = Some stateEnv"
  "matches stateEnv = [matchEnv\<lparr>confidence := 100\<rparr>]"
  "stateConsistent stateEnv"
  "matchStates stateEnv ''file:///p/.env-env-0'' = Some True"
proof -
  from scanDocument_consistent [OF scan_docEnv enabled_eng0]
  show a: "documentStates engEnv (uri docEnv) = Some stateEnv"
    and b: "matches stateEnv = [matchEnv\<lparr>confidence := 100\<rparr>]"
    and c: "stateConsistent stateEnv"
    by (auto simp: stateEnv_def)
  from b c show "matchStates stateEnv ''file:///p/.env-env-0'' = Some True"
    by (simp add: stateConsistent_def matchEnv_def)
qed

lemma stateEnv_flags:
  "matchStates stateEnv i = (if i = ''file:///p/.env-env-0'' then Some True else None)"
proof -
  from scanDocument_cases [OF scan_docEnv] enabled_eng0
  have "matchStates stateEnv = (\<lambda>i. if i \<in> id_m ` set [matchEnv\<lparr>confidence := 100\<rparr>]
          then Some (priorFlag (map_option matchStates (documentStates eng0 (uri docEnv))) i)
          else None)"
    by (auto simp: stateEnv_def)
  then show ?thesis
    by (simp add: matchEnv_def documentStates_eng0 priorFlag_def)
qed

lemma engEnv_other: "documentStates engEnv ''file:///other'' = None"
  using scanDocument_other [OF scan_docEnv, of "''file:///other''"] documentStates_eng0
  by (simp add: docEnv_def)

lemma engEnv_frame:
  "settings engEnv = settings eng0" "collectMatches engEnv doc = collectMatches eng0 doc"
proof -
  from scanDocument_frame [OF scan_docEnv]
  show "settings engEnv = settings eng0" by simp
  from scanDocument_frame [OF scan_docEnv]
  show "collectMatches engEnv doc = collectMatches eng0 doc"
    by (intro collectMatches_cong) simp_all
qed

lemma settings_engOff: "settings engOff = Some (defaultSettings\<lparr>enabled := False\<rparr>)"
  unfolding engOff_def loadSettings_def
  by (simp add: Let_def defaultSettings_def setCustomPatterns_def split: prod.splits)

lemma engRevealed_state:
  "documentStates engRevealed (uri docEnv) =
     Some \<lparr>ds_uri = uri docEnv, fileMasked = False, matchStates = Map.empty, matches = [],
           lastScan = 0\<rparr>"
proof -
  have u: "uri docEmpty = uri docEnv"
    by (simp add: docEmpty_def docEnv_def)
  obtain e1 where sc: "scanDocument docEmpty 0 eng0 = Some ([], e1)"
    using enabled_eng0 collectMatches_docEmpty documentStates_eng0
    by (simp add: scanDocument_def Let_def)
  from scanDocument_cases [OF sc] enabled_eng0 documentStates_eng0
  have "documentStates e1 (uri docEmpty) =
     Some \<lparr>ds_uri = uri docEmpty, fileMasked = True, matchStates = Map.empty, matches = [],
           lastScan = 0\<rparr>"
    by auto
  with sc u show ?thesis
    by (simp add: engRevealed_def revealAll_def setAll_def)
qed

lemma engRevealed_frame:
  "settings engRevealed = settings eng0"
  "collectMatches engRevealed doc = collectMatches eng0 doc"
proof -
  obtain e1 where sc: "scanDocument docEmpty 0 eng0 = Some ([], e1)"
    using enabled_eng0 collectMatches_docEmpty
    by (auto simp: scanDocument_def Let_def split: prod.splits)
  have e1: "engRevealed = revealAll (uri docEnv) e1"
    using sc by (simp add: engRevealed_def)
  from scanDocument_frame [OF sc] revealAll_frame [of "uri docEnv" e1]
  show "settings engRevealed = settings eng0"
    by (simp add: e1)
  from scanDocument_frame [OF sc] revealAll_frame [of "uri docEnv" e1]
  show "collectMatches engRevealed doc = collectMatches eng0 doc"
    unfolding e1 by (intro collectMatches_cong) simp_all
qed

lemma engToggled_facts:
  "settings engToggled = settings eng0"
  "collectMatches engToggled doc = collectMatches eng0 doc"
  "map_option (\<lambda>st. matchStates st ''file:///p/.env-env-0'') (documentStates engToggled (uri docEnv))
     = Some (Some False)"
proof -
  from toggleMatchMask_frame [of "uri docEnv" "''file:///p/.env-env-0''" engEnv] engEnv_frame
  show "settings engToggled = settings eng0"
    by (simp add: engToggled_def)
  from toggleMatchMask_frame [of "uri docEnv" "''file:///p/.env-env-0''" engEnv]
  have "collectMatches engToggled doc = collectMatches engEnv doc"
    unfolding engToggled_def by (intro collectMatches_cong) simp_all
  then show "collectMatches engToggled doc = collectMatches eng0 doc"
    by (simp add: engEnv_frame)
  show "map_option (\<lambda>st. matchStates st ''file:///p/.env-env-0'')
          (documentStates engToggled (uri docEnv)) = Some (Some False)"
    using stateEnv_facts by (simp add: engToggled_def toggleMatchMask_def)
qed

subsection \<open>Claims about the stored state\<close>

text \<open>
  Claim C9.  When the setting \<open>enabled\<close> is false, \<open>scanDocument\<close> returns the empty list
  for every document and the engine after the call is the engine before it: no document
  state is cleared, changed or created.
\<close>

theorem scanDocument_disabled:
  assumes "settings e = Some s" and "\<not> enabled s"
  shows "scanDocument doc now e = Some ([], e)"
  using assms by (simp add: scanDocument_def)

theorem scanDocument_disabled_witness:
  "settings engOff = Some (defaultSettings\<lparr>enabled := False\<rparr>)
   \<and> \<not> enabled (defaultSettings\<lparr>enabled := False\<rparr>)
   \<and> scanDocument docEnv 7 engOff = Some ([], engOff)"
  using scanDocument_disabled [of engOff "defaultSettings\<lparr>enabled := False\<rparr>" docEnv 7]
    settings_engOff
  by simp

text \<open>
  Claim C2, as amended.  After a scan, the flag \<open>isMasked\<close> of every returned match is the
  flag stored for its identity before the scan, and \<open>True\<close> (masked) when the document had
  no state or no flag for that identity.  The whole-file flag \<open>fileMasked\<close> plays no part:
  a match with a new identity is masked also after reveal-all.
\<close>

theorem rescan_keeps_or_masks:
  assumes "scanDocument doc now e = Some (res, e')" and "m \<in> set res"
  shows "isMasked m = (case documentStates e (uri doc) of
            None \<Rightarrow> True
          | Some st \<Rightarrow> (case matchStates st (id_m m) of None \<Rightarrow> True | Some b \<Rightarrow> b))"
proof -
  from scanDocument_cases [OF assms(1)] assms(2)
  obtain allMatches where "res = finalizeMatches e doc allMatches"
    by auto
  with assms(2) show ?thesis
    by (auto simp: finalizeMatches_def priorFlag_def split: option.splits)
qed

text \<open>The witness: a match revealed with \<open>toggleMatchMask\<close> stays revealed when the
  unchanged file is scanned again.\<close>

theorem rescan_keeps_or_masks_witness:
  "scanDocument docEnv 1 engToggled
     = Some ([matchEnv\<lparr>confidence := 100, isMasked := False\<rparr>], engRescanned)
   \<and> matchEnv\<lparr>confidence := 100, isMasked := False\<rparr>
       \<in> set [matchEnv\<lparr>confidence := 100, isMasked := False\<rparr>]
   \<and> isMasked (matchEnv\<lparr>confidence := 100, isMasked := False\<rparr>)
       = (case documentStates engToggled (uri docEnv) of
            None \<Rightarrow> True
          | Some st \<Rightarrow> (case matchStates st (id_m (matchEnv\<lparr>confidence := 100, isMasked := False\<rparr>)) of
                         None \<Rightarrow> True | Some b \<Rightarrow> b))"
proof -
  have en: "case settings engToggled of None \<Rightarrow> False | Some s \<Rightarrow> enabled s"
    by (simp add: engToggled_facts settings_eng0 defaultSettings_def)
  obtain st where st: "documentStates engToggled (uri docEnv) = Some st"
    and fl: "matchStates st ''file:///p/.env-env-0'' = Some False"
    using engToggled_facts(3) by auto
  have "\<exists>e'. scanDocument docEnv 1 engToggled
          = Some ([matchEnv\<lparr>confidence := 100, isMasked := False\<rparr>], e')"
    using en collectMatches_docEnv boost_matchEnv st fl
    by (simp add: scanDocument_def Let_def engToggled_facts matchEnv_def)
  then have sc: "scanDocument docEnv 1 engToggled
     = Some ([matchEnv\<lparr>confidence := 100, isMasked := False\<rparr>], engRescanned)"
    by (auto simp: engRescanned_def)
  from rescan_keeps_or_masks [OF sc, of "matchEnv\<lparr>confidence := 100, isMasked := False\<rparr>"] sc
  show ?thesis by simp
qed

text \<open>
  The claim as stated fails: an empty file \<open>.env\<close> is scanned, all its secrets are
  revealed (\<open>fileMasked\<close> becomes false), then a secret appears in the file.  The new match
  has no stored flag, the last whole-file directive is "revealed", and the match is masked.
\<close>

theorem rescan_new_match_counterexample:
  "map_option fileMasked (documentStates engRevealed (uri docEnv)) = Some False
   \<and> map_option (\<lambda>st. matchStates st ''file:///p/.env-env-0'') (documentStates engRevealed (uri docEnv))
       = Some None
   \<and> map_option (map (\<lambda>m. (id_m m, isMasked m)) \<circ> fst) (scanDocument docEnv 1 engRevealed)
       = Some [(''file:///p/.env-env-0'', True)]"
proof -
  have en: "(case settings engRevealed of None \<Rightarrow> False | Some s \<Rightarrow> enabled s)"
    by (simp add: engRevealed_frame settings_eng0 defaultSettings_def)
  have "\<exists>e'. scanDocument docEnv 1 engRevealed
          = Some ([matchEnv\<lparr>confidence := 100, isMasked := True\<rparr>], e')"
    using en collectMatches_docEnv boost_matchEnv engRevealed_state
    by (simp add: scanDocument_def Let_def engRevealed_frame)
  then show ?thesis
    using engRevealed_state by (auto simp: matchEnv_def)
qed

text \<open>
  Claim C8.  For an identity with a stored flag \<open>b\<close> in a consistent document state (the
  states \<open>scanDocument\<close> stores are consistent, \<open>scanDocument_consistent\<close>), the first
  \<open>toggleMatchMask\<close> returns \<open>\<not> b\<close>, the second returns \<open>b\<close>, and after the second the
  engine is the engine before the first: the flag map and the match are as they were.
\<close>

theorem toggleMatchMask_twice:
  assumes "documentStates e u = Some st" and "matchStates st matchId = Some b"
    and "stateConsistent st"
  shows "fst (toggleMatchMask u matchId e) = (\<not> b)
       \<and> toggleMatchMask u matchId (snd (toggleMatchMask u matchId e)) = (b, e)"
proof -
  let ?st1 = "st\<lparr>matchStates := (matchStates st)(matchId \<mapsto> \<not> b),
                 matches := updateFirst matchId (\<not> b) (matches st)\<rparr>"
  let ?e1 = "e\<lparr>documentStates := (documentStates e)(u \<mapsto> ?st1)\<rparr>"
  have first: "toggleMatchMask u matchId e = (\<not> b, ?e1)"
    using assms(1,2) by (simp add: toggleMatchMask_def)
  have same: "\<forall>m \<in> set (matches st). id_m m = matchId \<longrightarrow> isMasked m = b"
    using assms(2,3) by (auto simp: stateConsistent_def)
  have restore: "?st1\<lparr>matchStates := (matchStates ?st1)(matchId \<mapsto> b),
                      matches := updateFirst matchId b (matches ?st1)\<rparr> = st"
    using assms(2) updateFirst_twice [OF same, of "\<not> b"]
    by (simp add: map_upd_triv)
  have "toggleMatchMask u matchId ?e1 = (b, ?e1\<lparr>documentStates := (documentStates ?e1)(u \<mapsto> st)\<rparr>)"
    using restore by (simp add: toggleMatchMask_def)
  moreover have "?e1\<lparr>documentStates := (documentStates ?e1)(u \<mapsto> st)\<rparr> = e"
    using assms(1) by (simp add: map_upd_triv)
  ultimately show ?thesis using first by simp
qed

theorem toggleMatchMask_twice_witness:
  "documentStates engEnv (uri docEnv) = Some stateEnv
   \<and> matchStates stateEnv ''file:///p/.env-env-0'' = Some True
   \<and> stateConsistent stateEnv
   \<and> fst (toggleMatchMask (uri docEnv) ''file:///p/.env-env-0'' engEnv) = (\<not> True)
   \<and> toggleMatchMask (uri docEnv) ''file:///p/.env-env-0''
        (snd (toggleMatchMask (uri docEnv) ''file:///p/.env-env-0'' engEnv)) = (True, engEnv)"
  using toggleMatchMask_twice [OF stateEnv_facts(1) stateEnv_facts(4) stateEnv_facts(3)]
    stateEnv_facts
  by simp

text \<open>
  With a document identity that has no state, \<open>toggleMatchMask\<close> returns \<open>False\<close>,
  \<open>toggleFileMask\<close> returns \<open>True\<close>, and these two, \<open>maskAll\<close> and \<open>revealAll\<close> leave the engine
  as it is.
\<close>

lemma unknown_document_unchanged:
  assumes "documentStates e u = None"
  shows "toggleMatchMask u matchId e = (False, e) \<and> toggleFileMask u e = (True, e)
       \<and> maskAll u e = e \<and> revealAll u e = e"
  using assms by (simp add: toggleMatchMask_def toggleFileMask_def maskAll_def revealAll_def)

text \<open>
  With a known document, \<open>toggleMatchMask\<close> writes the flag before it looks for the match:
  an identity with no match gets a flag all the same, the negation of the flag it had, or
  \<open>False\<close> when it had none.
\<close>

lemma toggleMatchMask_unknown_match:
  assumes "documentStates e u = Some st" and "matchId \<notin> id_m ` set (matches st)"
  shows "toggleMatchMask u matchId e =
           (\<not> (case matchStates st matchId of None \<Rightarrow> True | Some b \<Rightarrow> b),
            e\<lparr>documentStates := (documentStates e)(u \<mapsto>
                 st\<lparr>matchStates := (matchStates st)(matchId \<mapsto>
                      \<not> (case matchStates st matchId of None \<Rightarrow> True | Some b \<Rightarrow> b))\<rparr>)\<rparr>)"
  using assms by (auto simp: toggleMatchMask_def Let_def updateFirst_absent)

section \<open>No two matches of a scan overlap\<close>

definition apart :: "SensitiveMatch \<Rightarrow> SensitiveMatch \<Rightarrow> bool" where
  "apart a b = (\<not> rangesOverlap (range_m a) (range_m b))"

lemma apart_sym: "apart a b \<Longrightarrow> apart b a"
  by (auto simp: apart_def rangesOverlap_def)

lemma apart_snoc:
  "sorted_wrt apart acc \<Longrightarrow> \<not> list_ex (\<lambda>x. rangesOverlap (range_m x) (range_m c)) acc
     \<Longrightarrow> sorted_wrt apart (acc @ [c])"
  by (auto simp: sorted_wrt_append list_ex_iff apart_def)

lemma addNonOverlapping_apart:
  "sorted_wrt apart acc \<Longrightarrow> sorted_wrt apart (addNonOverlapping cands acc)"
  unfolding addNonOverlapping_def
  by (induction cands arbitrary: acc) (auto simp: apart_snoc)

lemma addNonOverlapping_set:
  "set acc \<subseteq> set (addNonOverlapping cands acc)
   \<and> set (addNonOverlapping cands acc) \<subseteq> set acc \<union> set cands"
proof (induction cands arbitrary: acc)
  case Nil
  show ?case by (simp add: addNonOverlapping_def)
next
  case (Cons c cands)
  define acc' where
    "acc' = (if list_ex (\<lambda>x. rangesOverlap (range_m x) (range_m c)) acc then acc else acc @ [c])"
  have step: "addNonOverlapping (c # cands) acc = addNonOverlapping cands acc'"
    by (simp add: addNonOverlapping_def acc'_def)
  have "set acc \<subseteq> set acc'" and "set acc' \<subseteq> set acc \<union> {c}"
    by (auto simp: acc'_def)
  with Cons.IH [of acc'] show ?case
    unfolding step by auto
qed

lemma findMatches_body_apart:
  "sorted_wrt apart acc \<Longrightarrow> sorted_wrt apart (findMatches_body pd text doc m acc)"
  unfolding findMatches_body_def
  by (auto simp: Let_def intro!: apart_snoc)

lemma fold_findMatches_body_apart:
  "sorted_wrt apart acc \<Longrightarrow> sorted_wrt apart (fold (findMatches_body pd text doc) found acc)"
  by (induction found arbitrary: acc) (auto simp: findMatches_body_apart)

lemma findMatches_loop_apart:
  "findMatches_loop pds text doc acc = Some res \<Longrightarrow> sorted_wrt apart acc \<Longrightarrow> sorted_wrt apart res"
proof (induction pds arbitrary: acc)
  case Nil
  then show ?case by simp
next
  case (Cons pd pds)
  from Cons.prems(1) obtain found where
    "findMatches_loop pds text doc (fold (findMatches_body pd text doc) found acc) = Some res"
    by (auto split: option.splits)
  from Cons.IH [OF this] Cons.prems(2) show ?case
    by (simp add: fold_findMatches_body_apart)
qed

lemma findMatches_apart:
  "findMatches pm text doc = Some res \<Longrightarrow> sorted_wrt apart res"
  unfolding findMatches_def by (auto simp: Let_def dest: findMatches_loop_apart)

text \<open>\<open>positionAt\<close> keeps the order of the offsets, and moves an offset of the text by one
  at most.\<close>

lemma positionAt_mono: "a \<le> b \<Longrightarrow> positionAt doc a \<le> positionAt doc b"
proof -
  assume le: "a \<le> b"
  define ka where "ka = nat (max 0 (min a (int (length (getText doc)))))"
  define kb where "kb = nat (max 0 (min b (int (length (getText doc)))))"
  from le have kk: "ka \<le> kb"
    by (simp add: ka_def kb_def)
  have pa: "positionAt doc a = (if 0 < ka \<and> ka < length (getText doc)
                \<and> getText doc ! (ka - 1) = CR \<and> getText doc ! ka = LF then ka - 1 else ka)"
    by (simp only: positionAt_def Let_def ka_def)
  have pb: "positionAt doc b = (if 0 < kb \<and> kb < length (getText doc)
                \<and> getText doc ! (kb - 1) = CR \<and> getText doc ! kb = LF then kb - 1 else kb)"
    by (simp only: positionAt_def Let_def kb_def)
  show ?thesis
  proof (cases "ka = kb")
    case True
    with pa pb show ?thesis by simp
  next
    case False
    with kk have "ka < kb" by simp
    moreover from pa have "positionAt doc a \<le> ka" by simp
    moreover from pb have "kb - 1 \<le> positionAt doc b" by simp
    ultimately show ?thesis by arith
  qed
qed

lemma positionAt_near:
  assumes "k \<le> length (getText doc)"
  shows "positionAt doc (int k) \<le> k \<and> k - 1 \<le> positionAt doc (int k)"
  using assms by (auto simp: positionAt_def Let_def)

lemma positionAt_exact:
  assumes "k \<le> length (getText doc)"
    and "\<not> (0 < k \<and> k < length (getText doc)
            \<and> getText doc ! (k - 1) = CR \<and> getText doc ! k = LF)"
  shows "positionAt doc (int k) = k"
  using assms by (auto simp: positionAt_def Let_def)

text \<open>A match of the line at \<open>offset\<close> of a file \<open>.env\<close> lies inside that line.\<close>

lemma new_Range_within:
  assumes "lo \<le> a" and "a \<le> b" and "b \<le> hi"
  shows "positionAt doc lo \<le> r_start (new_Range (positionAt doc a) (positionAt doc b))
       \<and> r_end (new_Range (positionAt doc a) (positionAt doc b)) \<le> positionAt doc hi"
proof -
  from assms have "positionAt doc lo \<le> positionAt doc a"
    and "positionAt doc a \<le> positionAt doc b" and "positionAt doc b \<le> positionAt doc hi"
    by (auto intro: positionAt_mono)
  then show ?thesis by (simp add: new_Range_def)
qed

lemma findEnvMatches_line_range:
  assumes "findEnvMatches_line doc lineNum offset originalLine = Some m"
  shows "positionAt doc (int offset) \<le> r_start (range_m m)
       \<and> r_end (range_m m) \<le> positionAt doc (int (offset + length originalLine + 1))"
proof -
  let ?line = "if endsWith originalLine [CR] then slice_0_m1 originalLine else originalLine"
  have len: "length ?line \<le> length originalLine"
    by (simp add: slice_0_m1_def)
  from assms obtain equalsIndex where eq: "indexOf ?line ''='' 0 = Some equalsIndex"
    unfolding findEnvMatches_line_def
    by (auto simp: Let_def split: if_splits option.splits)
  from indexOf_bounds [OF eq] have le: "equalsIndex + 1 \<le> length ?line"
    by simp
  from assms eq
  have rg: "range_m m = new_Range (positionAt doc (int (offset + (equalsIndex + 1))))
                                  (positionAt doc (int (offset + length ?line)))"
    unfolding findEnvMatches_line_def
    by (auto simp: Let_def simp del: of_nat_add of_nat_Suc split: if_splits option.splits)
  have "int offset \<le> int (offset + (equalsIndex + 1))"
    and "int (offset + (equalsIndex + 1)) \<le> int (offset + length ?line)"
    and "int (offset + length ?line) \<le> int (offset + length originalLine + 1)"
    using le len by simp_all
  from new_Range_within [OF this] rg show ?thesis
    by simp
qed

lemma findEnvMatches_loop_apart:
  "sorted_wrt apart acc \<Longrightarrow> \<forall>x \<in> set acc. r_end (range_m x) \<le> positionAt doc (int offset)
     \<Longrightarrow> sorted_wrt apart (findEnvMatches_loop doc lines lineNum offset acc)"
proof (induction lines arbitrary: lineNum offset acc)
  case Nil
  then show ?case by simp
next
  case (Cons originalLine rest)
  let ?next = "offset + length originalLine + 1"
  let ?acc' = "case findEnvMatches_line doc lineNum offset originalLine of
                 None \<Rightarrow> acc | Some m \<Rightarrow> acc @ [m]"
  have mono: "positionAt doc (int offset) \<le> positionAt doc (int ?next)"
    by (intro positionAt_mono) simp
  have "sorted_wrt apart ?acc' \<and> (\<forall>x \<in> set ?acc'. r_end (range_m x) \<le> positionAt doc (int ?next))"
  proof (cases "findEnvMatches_line doc lineNum offset originalLine")
    case None
    with Cons.prems mono show ?thesis by (auto intro: order_trans)
  next
    case (Some m)
    from findEnvMatches_line_range [OF Some]
    have lo: "positionAt doc (int offset) \<le> r_start (range_m m)"
      and hi: "r_end (range_m m) \<le> positionAt doc (int ?next)"
      by simp_all
    have "\<forall>x \<in> set acc. apart x m"
      using Cons.prems(2) lo by (force simp: apart_def rangesOverlap_def)
    with Cons.prems(1) have "sorted_wrt apart (acc @ [m])"
      by (simp add: sorted_wrt_append)
    moreover have "\<forall>x \<in> set (acc @ [m]). r_end (range_m x) \<le> positionAt doc (int ?next)"
      using Cons.prems(2) mono hi by (auto intro: order_trans)
    ultimately show ?thesis using Some by simp
  qed
  then show ?case
    using Cons.IH [of ?acc' ?next "lineNum + 1"] by simp
qed

lemma findEnvMatches_apart: "sorted_wrt apart (findEnvMatches doc text [])"
  unfolding findEnvMatches_def by (rule findEnvMatches_loop_apart) simp_all

lemma collectMatches_apart:
  assumes "collectMatches e doc = Some allMatches"
  shows "sorted_wrt apart allMatches"
proof -
  from assms obtain base customMatches where
    base: "(if ctx_isEnvFile (getContext doc)
            then (case findContextMatches doc of
                    None \<Rightarrow> None
                  | Some contextMatches \<Rightarrow>
                     (case findMatches (patternMatcher e) (getText doc) doc of
                        None \<Rightarrow> None
                      | Some patternMatches \<Rightarrow>
                          Some (addNonOverlapping patternMatches contextMatches)))
            else (case findMatches (patternMatcher e) (getText doc) doc of
                    None \<Rightarrow> None
                  | Some patternMatches \<Rightarrow>
                     (case findContextMatches doc of
                        None \<Rightarrow> None
                      | Some contextMatches \<Rightarrow>
                          Some (addNonOverlapping contextMatches patternMatches)))) = Some base"
    and all: "allMatches = addNonOverlapping customMatches base"
    unfolding collectMatches_def by (auto simp: Let_def split: option.splits)
  have "sorted_wrt apart base"
  proof (cases "ctx_isEnvFile (getContext doc)")
    case True
    with base obtain patternMatches where
      "base = addNonOverlapping patternMatches (findEnvMatches doc (getText doc) [])"
      by (auto simp: findContextMatches_def Let_def split: option.splits)
    then show ?thesis
      by (simp add: addNonOverlapping_apart findEnvMatches_apart)
  next
    case False
    with base obtain patternMatches contextMatches where
      "findMatches (patternMatcher e) (getText doc) doc = Some patternMatches"
      and "base = addNonOverlapping contextMatches patternMatches"
      by (auto split: option.splits)
    then show ?thesis
      by (simp add: addNonOverlapping_apart findMatches_apart)
  qed
  with all show ?thesis
    by (simp add: addNonOverlapping_apart)
qed

lemma insort_key_apart:
  "sorted_wrt apart xs \<Longrightarrow> \<forall>y \<in> set xs. apart x y \<Longrightarrow> sorted_wrt apart (insort_key f x xs)"
  by (induction xs) (auto simp: set_insort_key intro: apart_sym)

lemma sort_key_apart:
  "sorted_wrt apart xs \<Longrightarrow> sorted_wrt apart (sort_key f xs)"
  by (induction xs) (auto simp: insort_key_apart)

lemma apart_applyBoost [simp]: "apart (applyBoost c a) (applyBoost c b) = apart a b"
  by (simp add: apart_def applyBoost_def Let_def)

lemma apart_isMasked [simp]: "apart (a\<lparr>isMasked := x\<rparr>) (b\<lparr>isMasked := y\<rparr>) = apart a b"
  by (simp add: apart_def)

lemma finalizeMatches_apart:
  assumes "sorted_wrt apart allMatches"
  shows "sorted_wrt apart (finalizeMatches e doc allMatches)"
proof -
  have "sorted_wrt apart (map (applyBoost (getContext doc)) allMatches)"
    using assms by (simp add: sorted_wrt_map)
  then have "sorted_wrt apart (sort_key (\<lambda>m. r_start (range_m m))
                                 (map (applyBoost (getContext doc)) allMatches))"
    by (rule sort_key_apart)
  then show ?thesis
    unfolding finalizeMatches_def by (simp add: sorted_wrt_map)
qed

text \<open>
  Claim C1.  In the list a scan returns, for every two matches at different places of the
  list, the range of one ends at or before the start of the range of the other.
\<close>

theorem scanDocument_no_overlap:
  assumes "scanDocument doc now e = Some (res, e')"
    and "i < length res" and "j < length res" and "i \<noteq> j"
  shows "r_end (range_m (res ! i)) \<le> r_start (range_m (res ! j))
       \<or> r_end (range_m (res ! j)) \<le> r_start (range_m (res ! i))"
proof -
  have sorted: "sorted_wrt apart res"
  proof (cases "case settings e of None \<Rightarrow> False | Some s \<Rightarrow> enabled s")
    case False
    with assms(1) show ?thesis by (simp add: scanDocument_def)
  next
    case True
    from scanDocument_enabled [OF assms(1) True] show ?thesis
      by (auto simp: finalizeMatches_apart collectMatches_apart)
  qed
  have "apart (res ! i) (res ! j)"
  proof (cases "i < j")
    case True
    with sorted assms(3) show ?thesis
      by (simp add: sorted_wrt_iff_nth_less)
  next
    case False
    with assms(4) have "j < i" by simp
    with sorted assms(2) have "apart (res ! j) (res ! i)"
      by (simp add: sorted_wrt_iff_nth_less)
    then show ?thesis by (rule apart_sym)
  qed
  then show ?thesis
    by (auto simp: apart_def rangesOverlap_def)
qed

section \<open>Properties of the matcher\<close>

text \<open>
  \<open>advances st st'\<close>: the state \<open>st'\<close> is reached from \<open>st\<close> by consuming a part \<open>w\<close> of
  the input, and every capture made on the way is a piece of \<open>w\<close>.
\<close>

definition advances :: "mstate \<Rightarrow> mstate \<Rightarrow> bool" where
  "advances st st' = (\<exists>w new. st_rest st = w @ st_rest st'
     \<and> st_pos st' = st_pos st + length w
     \<and> st_caps st' = new @ st_caps st
     \<and> (\<forall>(n, v) \<in> set new. sublist v w))"

lemma advances_refl: "advances st st"
  unfolding advances_def by (rule exI [of _ "[]"], rule exI [of _ "[]"]) simp

lemma advances_trans:
  assumes "advances a b" and "advances b c"
  shows "advances a c"
proof -
  from assms(1) obtain w1 new1 where 1: "st_rest a = w1 @ st_rest b"
    "st_pos b = st_pos a + length w1" "st_caps b = new1 @ st_caps a"
    "\<forall>(n, v) \<in> set new1. sublist v w1"
    unfolding advances_def by blast
  from assms(2) obtain w2 new2 where 2: "st_rest b = w2 @ st_rest c"
    "st_pos c = st_pos b + length w2" "st_caps c = new2 @ st_caps b"
    "\<forall>(n, v) \<in> set new2. sublist v w2"
    unfolding advances_def by blast
  have "\<forall>(n, v) \<in> set (new2 @ new1). sublist v (w1 @ w2)"
  proof (clarsimp, elim disjE)
    fix n v assume "(n, v) \<in> set new2"
    with 2(4) have "sublist v w2" by auto
    then show "sublist v (w1 @ w2)"
      by (metis sublist_append_leftI sublist_order.order_trans)
  next
    fix n v assume "(n, v) \<in> set new1"
    with 1(4) have "sublist v w1" by auto
    then show "sublist v (w1 @ w2)"
      by (metis sublist_append_rightI sublist_order.order_trans)
  qed
  with 1 2 show ?thesis
    unfolding advances_def
    by (intro exI [of _ "w1 @ w2"] exI [of _ "new2 @ new1"]) simp
qed

lemma advances_step: "st' \<in> set (step P st) \<Longrightarrow> advances st st'"
  unfolding step_def advances_def
  by (cases "st_rest st") (auto split: if_splits intro!: exI [of _ "[]"])

lemma advances_set_cap:
  assumes "advances st st'"
  shows "advances st (set_cap n st st')"
proof -
  from assms obtain w new where 1: "st_rest st = w @ st_rest st'"
    "st_pos st' = st_pos st + length w" "st_caps st' = new @ st_caps st"
    "\<forall>(n, v) \<in> set new. sublist v w"
    unfolding advances_def by blast
  have "take (st_pos st' - st_pos st) (st_rest st) = w"
    using 1(1,2) by simp
  with 1 show ?thesis
    unfolding advances_def set_cap_def
    by (intro exI [of _ w] exI [of _ "(n, w) # new"]) simp
qed

lemma ms_forward:
  "st' \<in> set (ms ic len r st) \<Longrightarrow> advances st st'"
proof (induction ic len r st arbitrary: st' rule: ms.induct)
  case (1 ic len c st)
  then show ?case by (simp add: ms.simps(1) advances_step)
next
  case (2 ic len st)
  then show ?case by (simp add: ms.simps(2) advances_step)
next
  case (3 ic len items st)
  then show ?case by (simp add: ms.simps(3) advances_step)
next
  case (4 ic len items st)
  then show ?case by (simp add: ms.simps(4) advances_step)
next
  case (5 ic len st)
  then show ?case by (simp add: ms.simps(5) advances_refl)
next
  case (6 ic len a b st)
  from "6.prems" obtain mid where "mid \<in> set (ms ic len a st)" and "st' \<in> set (ms ic len b mid)"
    by (auto simp: ms.simps(6))
  with "6.IH" show ?case by (blast intro: advances_trans)
next
  case (7 ic len a b st)
  from "7.prems" have "st' \<in> set (ms ic len a st) \<or> st' \<in> set (ms ic len b st)"
    by (simp add: ms.simps(7))
  with "7.IH" show ?case by blast
next
  case (8 ic len n r st)
  from "8.prems" obtain mid where "mid \<in> set (ms ic len r st)" and "st' = set_cap n st mid"
    by (auto simp: ms.simps(8))
  with "8.IH" show ?case by (simp add: advances_set_cap)
next
  case (9 ic len st)
  then show ?case by (simp add: ms.simps(9) advances_refl split: if_splits)
next
  case (10 ic len st)
  then show ?case by (simp add: ms.simps(10) advances_refl split: if_splits)
next
  case (11 ic len items st)
  then show ?case
    by (simp add: ms.simps(11) advances_refl split: option.splits if_splits)
next
  case (12 ic len items st)
  then show ?case
    by (simp add: ms.simps(12) advances_refl split: list.splits if_splits)
next
  case (13 ic len mn mx r st)
  show ?case
  proof (cases "mx = Some 0")
    case True
    with "13.prems" show ?thesis by (simp add: ms.simps(13) advances_refl)
  next
    case False
    from "13.prems" False have "st' \<in> set (concat (map (\<lambda>st'.
             if mn = 0 \<and> st_pos st' = st_pos st then []
             else if st_pos st \<le> st_pos st' \<and> st_pos st' \<le> len
               then ms ic len (Rep (mn - 1) (map_option (\<lambda>k. k - 1) mx) r) st'
               else [])
           (ms ic len r st))) \<or> st' = st"
      by (subst (asm) ms.simps(13)) (auto split: if_splits)
    then consider
        (iter) mid where "mid \<in> set (ms ic len r st)"
          "\<not> (mn = 0 \<and> st_pos mid = st_pos st)"
          "st_pos st \<le> st_pos mid \<and> st_pos mid \<le> len"
          "st' \<in> set (ms ic len (Rep (mn - 1) (map_option (\<lambda>k. k - 1) mx) r) mid)"
      | (stop) "st' = st"
      by (auto split: if_splits)
    then show ?thesis
    proof cases
      case iter
      from "13.IH"(1) [OF False iter(1)] have "advances st mid" .
      moreover from "13.IH"(2) [OF False iter(1) iter(2) iter(3) iter(4)] have "advances mid st'" .
      ultimately show ?thesis by (rule advances_trans)
    next
      case stop
      then show ?thesis by (simp add: advances_refl)
    qed
  qed
qed

text \<open>The test on the positions inside the repetition never fails on a well-formed state.\<close>

lemma ms_within:
  assumes "st' \<in> set (ms ic len r st)" and "st_pos st + length (st_rest st) = len"
  shows "st_pos st \<le> st_pos st' \<and> st_pos st' + length (st_rest st') = len"
  using ms_forward [OF assms(1)] assms(2) unfolding advances_def by auto

text \<open>What \<open>exec\<close> returns: where the match is, what it covers and where its groups lie.\<close>

definition matchAt :: "string \<Rightarrow> RegExpExecArray \<Rightarrow> bool" where
  "matchAt text m = (index m + length (m0 m) \<le> length text
     \<and> take (length (m0 m)) (drop (index m) text) = m0 m
     \<and> (\<forall>(n, v) \<in> set (groups m). sublist v (m0 m)))"

lemma search_sound:
  "search re len prev i rest = Some m \<Longrightarrow>
     \<exists>k. index m = i + k \<and> k + length (m0 m) \<le> length rest
       \<and> take (length (m0 m)) (drop k rest) = m0 m
       \<and> (\<forall>(n, v) \<in> set (groups m). sublist v (m0 m))"
proof (induction re len prev i rest rule: search.induct)
  case (1 re len prev i rest)
  show ?case
  proof (cases "ms (ignoreCase re) len (source re) (MState prev i rest [])")
    case Nil
    show ?thesis
    proof (cases rest)
      case Nil
      with \<open>ms (ignoreCase re) len (source re) (MState prev i rest []) = []\<close> "1.prems"
      show ?thesis by (simp add: search.simps)
    next
      case (Cons x xs)
      with \<open>ms (ignoreCase re) len (source re) (MState prev i rest []) = []\<close> "1.prems"
      have "search re len (Some x) (i + 1) xs = Some m" by (simp add: search.simps)
      with "1.IH" \<open>ms (ignoreCase re) len (source re) (MState prev i rest []) = []\<close> Cons
      obtain k where "index m = i + 1 + k" "k + length (m0 m) \<le> length xs"
        "take (length (m0 m)) (drop k xs) = m0 m"
        "\<forall>(n, v) \<in> set (groups m). sublist v (m0 m)"
        by blast
      with Cons show ?thesis
        by (intro exI [of _ "Suc k"]) simp
    qed
  next
    case (Cons st sts)
    then have "st \<in> set (ms (ignoreCase re) len (source re) (MState prev i rest []))"
      by simp
    from ms_forward [OF this] obtain w new where w: "rest = w @ st_rest st"
      "st_pos st = i + length w" "st_caps st = new" "\<forall>(n, v) \<in> set new. sublist v w"
      unfolding advances_def by auto
    from Cons "1.prems" have m: "m = \<lparr>index = i, m0 = take (st_pos st - i) rest, groups = st_caps st\<rparr>"
      by (simp add: search.simps)
    from w have "take (st_pos st - i) rest = w" by simp
    with m w show ?thesis
      by (intro exI [of _ 0]) simp
  qed
qed

lemma exec_matchAt:
  assumes "exec re text lastIndex = Some m"
  shows "matchAt text m"
proof -
  from assms have le: "lastIndex \<le> length text"
    and s: "search re (length text) (if lastIndex = 0 then None else Some (text ! (lastIndex - 1)))
              lastIndex (drop lastIndex text) = Some m"
    unfolding exec_def by (auto split: if_splits)
  from search_sound [OF s] obtain k where k: "index m = lastIndex + k"
    "k + length (m0 m) \<le> length (drop lastIndex text)"
    "take (length (m0 m)) (drop k (drop lastIndex text)) = m0 m"
    "\<forall>(n, v) \<in> set (groups m). sublist v (m0 m)"
    by blast
  from k(1,3) have "take (length (m0 m)) (drop (index m) text) = m0 m"
    by (simp add: add.commute)
  with k le show ?thesis
    unfolding matchAt_def by auto
qed

lemma group_sublist:
  "matchAt text m \<Longrightarrow> group m k = Some v \<Longrightarrow> sublist v (m0 m)"
  unfolding matchAt_def group_def by (auto dest!: map_of_SomeD)

text \<open>Every match a search loop sees was returned by \<open>exec\<close>.\<close>

lemma execAll_matchAt:
  "execAll re s lastIndex = Some found \<Longrightarrow> m \<in> set found \<Longrightarrow>
     (\<exists>k. exec re s k = Some m) \<and> matchAt s m"
proof (induction re s lastIndex arbitrary: found rule: execAll.induct)
  case (1 re s lastIndex)
  show ?case
  proof (cases "exec re s lastIndex")
    case None
    with "1.prems" show ?thesis by (simp add: execAll.simps)
  next
    case (Some hit)
    with "1.prems"(1) have ne: "m0 hit \<noteq> []"
      by (auto simp: execAll.simps [of re s lastIndex] split: if_splits)
    with Some "1.prems"(1) obtain more where
      more: "execAll re s (index hit + length (m0 hit)) = Some more"
      and found: "found = hit # more"
      by (auto simp: execAll.simps [of re s lastIndex])
    show ?thesis
    proof (cases "m = hit")
      case True
      with Some exec_matchAt [OF Some] show ?thesis by blast
    next
      case False
      with "1.prems"(2) found have "m \<in> set more" by simp
      from "1.IH" [OF Some ne more this] show ?thesis .
    qed
  qed
qed

lemma search_state:
  "search re len prev i rest = Some m \<Longrightarrow>
     \<exists>st0 st. st_caps st0 = [] \<and> st \<in> set (ms (ignoreCase re) len (source re) st0)
       \<and> index m = st_pos st0 \<and> m0 m = take (st_pos st - st_pos st0) (st_rest st0)
       \<and> groups m = st_caps st"
proof (induction re len prev i rest rule: search.induct)
  case (1 re len prev i rest)
  show ?case
  proof (cases "ms (ignoreCase re) len (source re) (MState prev i rest [])")
    case Nil
    show ?thesis
    proof (cases rest)
      case Nil
      with \<open>ms (ignoreCase re) len (source re) (MState prev i rest []) = []\<close> "1.prems"
      show ?thesis by (simp add: search.simps)
    next
      case (Cons x xs)
      with \<open>ms (ignoreCase re) len (source re) (MState prev i rest []) = []\<close> "1.prems"
      have "search re len (Some x) (i + 1) xs = Some m" by (simp add: search.simps)
      with "1.IH" \<open>ms (ignoreCase re) len (source re) (MState prev i rest []) = []\<close> Cons
      show ?thesis by blast
    qed
  next
    case (Cons st sts)
    with "1.prems" have "m = \<lparr>index = i, m0 = take (st_pos st - i) rest, groups = st_caps st\<rparr>"
      by (simp add: search.simps)
    with Cons show ?thesis
      by (intro exI [of _ "MState prev i rest []"] exI [of _ st]) simp
  qed
qed

lemma exec_state:
  "exec re text lastIndex = Some m \<Longrightarrow>
     \<exists>st0 st. st_caps st0 = [] \<and> st \<in> set (ms (ignoreCase re) (length text) (source re) st0)
       \<and> index m = st_pos st0 \<and> m0 m = take (st_pos st - st_pos st0) (st_rest st0)
       \<and> groups m = st_caps st"
  unfolding exec_def by (auto split: if_splits dest!: search_state)

text \<open>A match of \<open>pre\<close> followed by \<open>r\<close> passes through a state from which \<open>r\<close> matches.\<close>

lemma ms_prefix:
  "st' \<in> set (ms ic len (foldr Seq pre r) st) \<Longrightarrow>
     \<exists>mid. advances st mid \<and> st' \<in> set (ms ic len r mid)"
proof (induction pre arbitrary: st)
  case Nil
  then show ?case by (auto intro: advances_refl)
next
  case (Cons a pre)
  from Cons.prems obtain s1 where s1: "s1 \<in> set (ms ic len a st)"
    and "st' \<in> set (ms ic len (foldr Seq pre r) s1)"
    by (auto simp: ms.simps(6))
  from Cons.IH [OF this(2)] obtain mid where "advances s1 mid" and "st' \<in> set (ms ic len r mid)"
    by blast
  with ms_forward [OF s1] show ?case
    by (blast intro: advances_trans)
qed

text \<open>The end of a pattern of the shape \<open>a(r)b\<close>: the group holds what lies between the two
  characters.\<close>

lemma ms_delimited_group:
  assumes "st' \<in> set (ms False len (Seq (Chr a) (Seq (Grp n r) (Seq (Chr b) Epsilon))) st)"
  shows "\<exists>v. map_of (st_caps st') n = Some v \<and> st_rest st = a # v @ b # st_rest st'
            \<and> st_pos st' = st_pos st + length v + 2"
proof -
  from assms obtain s1 where s1: "s1 \<in> set (ms False len (Chr a) st)"
    and t1: "st' \<in> set (ms False len (Seq (Grp n r) (Seq (Chr b) Epsilon)) s1)"
    by (auto simp: ms.simps(6))
  from t1 obtain s2 where s2: "s2 \<in> set (ms False len (Grp n r) s1)"
    and t2: "st' \<in> set (ms False len (Seq (Chr b) Epsilon) s2)"
    by (auto simp: ms.simps(6))
  from t2 obtain s3 where s3: "s3 \<in> set (ms False len (Chr b) s2)"
    and t3: "st' \<in> set (ms False len Epsilon s3)"
    by (auto simp: ms.simps(6))
  from t3 have e3: "st' = s3"
    by (simp add: ms.simps(5))
  from s1 obtain xs where r1: "st_rest st = a # xs"
    and d1: "s1 = MState (Some a) (st_pos st + 1) xs (st_caps st)"
    by (cases "st_rest st") (auto simp: ms.simps(1) step_def same_char_def split: if_splits)
  from s2 obtain inner where inner: "inner \<in> set (ms False len r s1)"
    and d2: "s2 = set_cap n s1 inner"
    by (auto simp: ms.simps(8))
  from ms_forward [OF inner] obtain w where w: "st_rest s1 = w @ st_rest inner"
    "st_pos inner = st_pos s1 + length w"
    unfolding advances_def by blast
  then have cap: "take (st_pos inner - st_pos s1) (st_rest s1) = w"
    by simp
  from s3 obtain ys where r3: "st_rest s2 = b # ys"
    and d3: "s3 = MState (Some b) (st_pos s2 + 1) ys (st_caps s2)"
    by (cases "st_rest s2") (auto simp: ms.simps(1) step_def same_char_def split: if_splits)
  have "map_of (st_caps st') n = Some w"
    using e3 d3 d2 cap by (simp add: set_cap_def)
  moreover have "st_rest st = a # w @ b # st_rest st'"
    using r1 d1 w(1) d2 r3 e3 d3 by (simp add: set_cap_def)
  moreover have "st_pos st' = st_pos st + length w + 2"
    using e3 d3 d2 w(2) d1 by (simp add: set_cap_def)
  ultimately show ?thesis by blast
qed

lemma jsonPattern_shape:
  "source jsonPattern = foldr Seq
     [Chr DQ, Grp 1 (Plus (NCls [CChar DQ])), Chr DQ, Star ws, Chr CHR '':'', Star ws]
     (Seq (Chr DQ) (Seq (Grp 2 (Plus (NCls [CChar DQ]))) (Seq (Chr DQ) Epsilon)))"
  "ignoreCase jsonPattern = False"
  by (simp_all add: jsonPattern_def regexp_def Seqs_def)

text \<open>In a match of the JSON pattern the second group stands between the last two quotes.\<close>

lemma jsonPattern_value:
  assumes "exec jsonPattern text k = Some m" and "group m 2 = Some v"
  shows "sublist ([DQ] @ v @ [DQ]) (m0 m)"
proof -
  from exec_state [OF assms(1)] obtain st0 st where st: "st_caps st0 = []"
    "st \<in> set (ms False (length text) (source jsonPattern) st0)"
    "m0 m = take (st_pos st - st_pos st0) (st_rest st0)" "groups m = st_caps st"
    by (auto simp: jsonPattern_shape(2))
  from ms_prefix [OF st(2) [unfolded jsonPattern_shape(1)]] obtain mid where
    adv: "advances st0 mid"
    and tl: "st \<in> set (ms False (length text)
               (Seq (Chr DQ) (Seq (Grp 2 (Plus (NCls [CChar DQ]))) (Seq (Chr DQ) Epsilon))) mid)"
    by blast
  from adv obtain w where w: "st_rest st0 = w @ st_rest mid" "st_pos mid = st_pos st0 + length w"
    unfolding advances_def by blast
  from ms_delimited_group [OF tl] obtain v' where v': "map_of (st_caps st) 2 = Some v'"
    "st_rest mid = DQ # v' @ DQ # st_rest st" "st_pos st = st_pos mid + length v' + 2"
    by blast
  from assms(2) st(4) v'(1) have "v' = v"
    by (simp add: group_def)
  with st(3) w v' have "m0 m = w @ ([DQ] @ v @ [DQ])"
    by simp
  then show ?thesis
    by (simp only: sublist_append_leftI)
qed

section \<open>Properties of the string functions\<close>

lemma startsWith_length: "startsWith s p \<Longrightarrow> length p \<le> length s"
proof -
  assume "startsWith s p"
  then have "length (take (length p) s) = length p"
    unfolding startsWith_def by simp
  then show ?thesis by (simp only: length_take)
qed

lemma lastIndexOf_aux_sound:
  "lastIndexOf_aux p xs k acc = Some r \<Longrightarrow>
     acc = Some r \<or> (\<exists>j. r = k + j \<and> j + length p \<le> length xs \<and> take (length p) (drop j xs) = p)"
proof (induction xs arbitrary: k acc)
  case Nil
  then show ?case by (auto split: if_splits)
next
  case (Cons x xs)
  let ?acc' = "if startsWith (x # xs) p then Some k else acc"
  from Cons.prems have "lastIndexOf_aux p xs (k + 1) ?acc' = Some r"
    by simp
  from Cons.IH [OF this] show ?case
  proof
    assume a: "?acc' = Some r"
    show ?thesis
    proof (cases "startsWith (x # xs) p")
      case True
      with a have "r = k" by simp
      with True startsWith_length [OF True] show ?thesis
        by (intro disjI2 exI [of _ 0]) (simp add: startsWith_def)
    next
      case False
      with a show ?thesis by simp
    qed
  next
    assume "\<exists>j. r = k + 1 + j \<and> j + length p \<le> length xs \<and> take (length p) (drop j xs) = p"
    then obtain j where "r = k + 1 + j" "j + length p \<le> length xs"
      "take (length p) (drop j xs) = p"
      by blast
    then show ?thesis
      by (intro disjI2 exI [of _ "Suc j"]) simp
  qed
qed

lemma lastIndexOf_sound:
  "lastIndexOf s p = Some r \<Longrightarrow> r + length p \<le> length s \<and> take (length p) (drop r s) = p"
  unfolding lastIndexOf_def by (auto dest!: lastIndexOf_aux_sound)

lemma lastIndexOf_aux_complete:
  "acc \<noteq> None \<or> (\<exists>j \<le> length xs. startsWith (drop j xs) p) \<Longrightarrow>
     lastIndexOf_aux p xs k acc \<noteq> None"
proof (induction xs arbitrary: k acc)
  case Nil
  then show ?case by (auto simp: startsWith_def)
next
  case (Cons x xs)
  let ?acc' = "if startsWith (x # xs) p then Some k else acc"
  have "?acc' \<noteq> None \<or> (\<exists>j \<le> length xs. startsWith (drop j xs) p)"
  proof (cases "acc \<noteq> None \<or> startsWith (x # xs) p")
    case True
    then show ?thesis by auto
  next
    case False
    with Cons.prems obtain j where j: "j \<le> length (x # xs)" "startsWith (drop j (x # xs)) p"
      by blast
    with False have "j \<noteq> 0" by (cases j) auto
    then obtain j' where "j = Suc j'" by (cases j) auto
    with j show ?thesis by auto
  qed
  from Cons.IH [OF this, of "k + 1"] show ?case by simp
qed

lemma sublist_startsWith:
  "sublist p s \<Longrightarrow> \<exists>j \<le> length s. startsWith (drop j s) p"
proof -
  assume "sublist p s"
  then obtain ps ss where "s = ps @ p @ ss"
    by (auto simp: sublist_def)
  then show ?thesis
    by (intro exI [of _ "length ps"]) (simp add: startsWith_def)
qed

lemma lastIndexOf_complete: "sublist p s \<Longrightarrow> lastIndexOf s p \<noteq> None"
  unfolding lastIndexOf_def
  by (rule lastIndexOf_aux_complete) (auto dest: sublist_startsWith)

lemma indexOf_aux_sound:
  "indexOf_aux p xs k = Some r \<Longrightarrow>
     \<exists>j. r = k + j \<and> j + length p \<le> length xs \<and> take (length p) (drop j xs) = p"
proof (induction xs arbitrary: k)
  case Nil
  then show ?case by (auto split: if_splits)
next
  case (Cons x xs)
  show ?case
  proof (cases "startsWith (x # xs) p")
    case True
    with Cons.prems have "r = k" by simp
    with True startsWith_length [OF True] show ?thesis
      by (intro exI [of _ 0]) (simp add: startsWith_def)
  next
    case False
    with Cons.prems have "indexOf_aux p xs (k + 1) = Some r" by simp
    from Cons.IH [OF this] obtain j where "r = k + 1 + j" "j + length p \<le> length xs"
      "take (length p) (drop j xs) = p"
      by blast
    then show ?thesis
      by (intro exI [of _ "Suc j"]) simp
  qed
qed

lemma indexOf_sound:
  assumes "indexOf s p from = Some r" and "from \<le> length s"
  shows "from \<le> r \<and> r + length p \<le> length s \<and> take (length p) (drop r s) = p"
proof -
  from assms have "indexOf_aux p (drop from s) from = Some r"
    by (simp add: indexOf_def min_def)
  from indexOf_aux_sound [OF this] obtain j where j: "r = from + j"
    "j + length p \<le> length (drop from s)" "take (length p) (drop j (drop from s)) = p"
    by blast
  from j(1,3) have "take (length p) (drop r s) = p"
    by (simp add: add.commute)
  with j assms(2) show ?thesis by auto
qed

lemma indexOf_aux_complete:
  "\<exists>j \<le> length xs. startsWith (drop j xs) p \<Longrightarrow> indexOf_aux p xs k \<noteq> None"
proof (induction xs arbitrary: k)
  case Nil
  then show ?case by (auto simp: startsWith_def)
next
  case (Cons x xs)
  show ?case
  proof (cases "startsWith (x # xs) p")
    case True
    then show ?thesis by simp
  next
    case False
    with Cons.prems obtain j where j: "j \<le> length (x # xs)" "startsWith (drop j (x # xs)) p"
      by blast
    with False have "j \<noteq> 0" by (cases j) auto
    then obtain j' where "j = Suc j'" by (cases j) auto
    with j have "\<exists>j \<le> length xs. startsWith (drop j xs) p" by auto
    from Cons.IH [OF this, of "k + 1"] False show ?thesis by simp
  qed
qed

lemma indexOf_complete: "sublist p s \<Longrightarrow> indexOf s p 0 \<noteq> None"
proof -
  assume "sublist p s"
  then have "indexOf_aux p s 0 \<noteq> None"
    by (intro indexOf_aux_complete sublist_startsWith)
  then show ?thesis by (simp add: indexOf_def)
qed

lemma length_trim: "length (trim s) \<le> length s"
proof -
  have "length (dropWhile isWhiteSpace (rev (dropWhile isWhiteSpace s)))
          \<le> length (rev (dropWhile isWhiteSpace s))"
    by (rule length_dropWhile_le)
  also have "\<dots> \<le> length s"
    by (simp add: length_dropWhile_le)
  finally show ?thesis by (simp add: trim_def)
qed

lemma length_stripQuotes: "length (stripQuotes v) \<le> length v"
  by (simp add: stripQuotes_def slice_1_m1_def)

text \<open>The lines of a text and their offsets: \<open>linesAt text offset ls\<close> says that \<open>ls\<close> are the
  lines of the text from \<open>offset\<close> on.\<close>

fun join_lines :: "string list \<Rightarrow> string" where
  "join_lines [] = []"
| "join_lines [l] = l"
| "join_lines (l # l' # ls) = l @ LF # join_lines (l' # ls)"

lemma split_lines_nonempty: "split_lines t \<noteq> []"
  by (induction t) (auto split: list.splits)

lemma join_split_lines: "join_lines (split_lines t) = t"
proof (induction t)
  case Nil
  show ?case by simp
next
  case (Cons c t)
  obtain l ls where s: "split_lines t = l # ls"
    using split_lines_nonempty [of t] by (cases "split_lines t") auto
  with Cons show ?case
    by (cases ls) auto
qed

definition linesAt :: "string \<Rightarrow> nat \<Rightarrow> string list \<Rightarrow> bool" where
  "linesAt text offset ls = (ls = [] \<or> (offset \<le> length text \<and> drop offset text = join_lines ls))"

lemma linesAt_split: "linesAt text 0 (split_lines text)"
  by (simp add: linesAt_def join_split_lines)

lemma linesAt_Cons:
  assumes "linesAt text offset (l # ls)"
  shows "offset + length l \<le> length text \<and> take (length l) (drop offset text) = l
       \<and> linesAt text (offset + length l + 1) ls"
proof (cases ls)
  case Nil
  with assms have "drop offset text = l" and "offset \<le> length text"
    by (simp_all add: linesAt_def)
  then have "length l = length text - offset" by auto
  with \<open>drop offset text = l\<close> \<open>offset \<le> length text\<close> Nil show ?thesis
    by (simp add: linesAt_def)
next
  case (Cons l' ls')
  with assms have d: "drop offset text = l @ LF # join_lines ls" and le: "offset \<le> length text"
    by (simp_all add: linesAt_def)
  from d have "length (drop offset text) = length (l @ LF # join_lines ls)"
    by simp
  then have len: "length text - offset = length l + 1 + length (join_lines ls)"
    by simp
  have "drop (offset + length l + 1) text = drop (length l + 1) (drop offset text)"
    by (simp add: add.commute add.left_commute)
  with d have rest: "drop (offset + length l + 1) text = join_lines ls"
    by simp
  from len le have bound: "offset + length l + 1 \<le> length text"
    by arith
  from d have "take (length l) (drop offset text) = l"
    by simp
  with rest bound show ?thesis
    by (simp add: linesAt_def)
qed

section \<open>What the detectors produce\<close>

text \<open>
  \<open>spans doc m\<close>: \<open>originalValue\<close> is the text between two offsets, and the ends of the
  range are the positions of these offsets.  \<open>within text m\<close>: the range of \<open>m\<close> lies in the
  text and \<open>originalValue\<close> is the text it covers.  The second follows from the first when
  \<open>positionAt\<close> leaves the two offsets as they are.

  The three predicates below collect what holds of every candidate of the pattern
  matcher, of the context analyzer and of the custom rules (\<open>hs\<close> are the hidden strings):
  the text of the value, its length, the shape of the identity.  A value shorter than
  \<open>MIN_SECRET_LENGTH\<close> comes from a line of an environment file whose key name is
  sensitive, or is a hidden string.
\<close>

definition spans :: "TextDocument \<Rightarrow> SensitiveMatch \<Rightarrow> bool" where
  "spans doc m = (\<exists>a b. a \<le> b \<and> b \<le> length (getText doc)
     \<and> originalValue m = take (b - a) (drop a (getText doc))
     \<and> range_m m = \<lparr>r_start = positionAt doc (int a), r_end = positionAt doc (int b)\<rparr>)"

definition within :: "string \<Rightarrow> SensitiveMatch \<Rightarrow> bool" where
  "within text m = (r_start (range_m m) \<le> r_end (range_m m)
     \<and> r_end (range_m m) \<le> length text
     \<and> originalValue m = take (r_end (range_m m) - r_start (range_m m))
                              (drop (r_start (range_m m)) text))"

definition patternOK :: "TextDocument \<Rightarrow> SensitiveMatch \<Rightarrow> bool" where
  "patternOK doc m = (spans doc m
     \<and> MIN_SECRET_LENGTH \<le> length (originalValue m)
     \<and> (\<exists>i l. id_m m = uri doc @ ''-'' @ toString i @ ''-'' @ toString l))"

definition contextOK :: "TextDocument \<Rightarrow> SensitiveMatch \<Rightarrow> bool" where
  "contextOK doc m = (spans doc m
     \<and> (MIN_SECRET_LENGTH \<le> length (originalValue m)
         \<or> (type_m m = ENV_VALUE \<and> (\<exists>kn. keyName m = Some kn \<and> isSensitiveKeyName kn)))
     \<and> (\<exists>tag n. tag \<in> {''env'', ''json'', ''yaml'', ''generic''}
            \<and> id_m m = uri doc @ ''-'' @ tag @ ''-'' @ toString n
            \<and> (tag = ''env'' \<longrightarrow> within (getText doc) m)))"

definition customOK :: "string list \<Rightarrow> TextDocument \<Rightarrow> SensitiveMatch \<Rightarrow> bool" where
  "customOK hs doc m = (spans doc m
     \<and> (MIN_SECRET_LENGTH \<le> length (originalValue m)
         \<or> (3 \<le> length (originalValue m) \<and> originalValue m \<in> set hs))
     \<and> (\<exists>tag rest. tag \<in> {''custom'', ''var'', ''str''}
            \<and> id_m m = uri doc @ ''-'' @ tag @ ''-'' @ rest))"

lemma customOK_intro:
  assumes "spans doc m"
    and "MIN_SECRET_LENGTH \<le> length (originalValue m)
         \<or> (3 \<le> length (originalValue m) \<and> originalValue m \<in> set hs)"
    and "id_m m = uri doc @ ''-'' @ tag @ ''-'' @ rest"
    and "tag \<in> {''custom'', ''var'', ''str''}"
  shows "customOK hs doc m"
  unfolding customOK_def using assms by blast

lemma contextOK_intro:
  assumes "spans doc m" and "MIN_SECRET_LENGTH \<le> length (originalValue m)"
    and "id_m m = uri doc @ ''-'' @ tag @ ''-'' @ toString n"
    and "tag \<in> {''json'', ''yaml'', ''generic''}"
  shows "contextOK doc m"
  unfolding contextOK_def using assms by auto

lemma fold_invariant:
  assumes "\<And>x acc. x \<in> set xs \<Longrightarrow> \<forall>m \<in> set acc. P m \<Longrightarrow> \<forall>m \<in> set (f x acc). P m"
    and "\<forall>m \<in> set acc. P m"
  shows "\<forall>m \<in> set (fold f xs acc). P m"
  using assms
proof (induction xs arbitrary: acc)
  case Nil
  then show ?case by simp
next
  case (Cons x xs)
  have "x \<in> set (x # xs)" by simp
  from Cons.prems(1) [OF this Cons.prems(2)]
  have step: "\<forall>m \<in> set (f x acc). P m" .
  have "\<forall>m \<in> set (fold f xs (f x acc)). P m"
  proof (rule Cons.IH [OF _ step])
    fix y acc'
    assume "y \<in> set xs" and inv: "\<forall>m \<in> set acc'. P m"
    then have "y \<in> set (x # xs)" by simp
    from Cons.prems(1) [OF this inv] show "\<forall>m \<in> set (f y acc'). P m" .
  qed
  then show ?case by simp
qed

lemma spans_value:
  assumes "range_m m = new_Range (positionAt doc A) (positionAt doc B)"
    and "originalValue m = v"
    and "A = int a" and "B = int (a + length v)"
    and "a + length v \<le> length (getText doc)"
    and "take (length v) (drop a (getText doc)) = v"
  shows "spans doc m"
proof -
  have "positionAt doc (int a) \<le> positionAt doc (int (a + length v))"
    by (rule positionAt_mono) simp
  with assms(1,3,4)
  have "range_m m = \<lparr>r_start = positionAt doc (int a),
                        r_end = positionAt doc (int (a + length v))\<rparr>"
    by (simp add: new_Range_def)
  moreover have "originalValue m = take (a + length v - a) (drop a (getText doc))"
    using assms(2,6) by simp
  moreover have "a \<le> a + length v"
    by simp
  ultimately show ?thesis
    unfolding spans_def using assms(5) by blast
qed

lemma within_value:
  assumes "range_m m = new_Range (positionAt doc A) (positionAt doc B)"
    and "originalValue m = v"
    and "A = int a" and "B = int (a + length v)"
    and "a + length v \<le> length (getText doc)"
    and "take (length v) (drop a (getText doc)) = v"
    and "positionAt doc (int a) = a"
    and "positionAt doc (int (a + length v)) = a + length v"
  shows "within (getText doc) m"
proof -
  from assms(1,3,4,7,8) have "range_m m = \<lparr>r_start = a, r_end = a + length v\<rparr>"
    by (simp add: new_Range_def)
  with assms(2,5,6) show ?thesis
    by (simp add: within_def)
qed

lemma take_drop_nth:
  assumes "take n (drop i t) = w" and "j < length w"
  shows "t ! (i + j) = w ! j"
proof -
  from assms have "j < n" and "i + j < length t"
    by auto
  then have "take n (drop i t) ! j = t ! (i + j)"
    by simp
  with assms(1) show ?thesis by simp
qed

text \<open>
  \<open>positionAt\<close> moves the offset of the line feed of a line end only.  So the range of a
  match covers its value when the value is empty, or does not begin with a line feed
  and does not end with a carriage return.
\<close>

lemma spans_exact:
  assumes "spans doc m"
    and "originalValue m = [] \<or> (hd (originalValue m) \<noteq> LF \<and> last (originalValue m) \<noteq> CR)"
  shows "within (getText doc) m"
proof -
  from assms(1) obtain a b where ab: "a \<le> b" "b \<le> length (getText doc)"
    and v: "originalValue m = take (b - a) (drop a (getText doc))"
    and rg: "range_m m = \<lparr>r_start = positionAt doc (int a), r_end = positionAt doc (int b)\<rparr>"
    unfolding spans_def by blast
  show ?thesis
  proof (cases "a = b")
    case True
    from ab True have "positionAt doc (int a) \<le> length (getText doc)"
      using positionAt_near [of a doc] by simp
    with True v rg show ?thesis
      by (simp add: within_def)
  next
    case False
    with ab have lt: "a < b" by simp
    with ab v have len: "length (originalValue m) = b - a"
      by simp
    with lt have ne: "originalValue m \<noteq> []"
      by auto
    from take_drop_nth [OF v [symmetric], of 0] len lt
    have first: "getText doc ! a = originalValue m ! 0"
      by simp
    from take_drop_nth [OF v [symmetric], of "b - a - 1"] len lt
    have "getText doc ! (a + (b - a - 1)) = originalValue m ! (b - a - 1)"
      by simp
    with lt have final: "getText doc ! (b - 1) = originalValue m ! (b - a - 1)"
      by simp
    from ne have "hd (originalValue m) = originalValue m ! 0"
      by (simp add: hd_conv_nth)
    with first assms(2) ne have "getText doc ! a \<noteq> LF"
      by simp
    moreover from ab lt have "a \<le> length (getText doc)"
      by simp
    ultimately have pa: "positionAt doc (int a) = a"
      by (intro positionAt_exact) simp_all
    from ne len have "last (originalValue m) = originalValue m ! (b - a - 1)"
      by (simp add: last_conv_nth)
    with final assms(2) ne have "getText doc ! (b - 1) \<noteq> CR"
      by simp
    with ab have pb: "positionAt doc (int b) = b"
      by (intro positionAt_exact) simp_all
    from ab v rg pa pb show ?thesis
      by (simp add: within_def)
  qed
qed

lemma endsWith_CR: "endsWith l [CR] = (l \<noteq> [] \<and> last l = CR)"
  by (cases l rule: rev_cases) (auto simp: endsWith_def)

lemma slice_of_slice:
  assumes "take n (drop i t) = w" and "i + n \<le> length t" and "p + k \<le> n"
    and "take k (drop p w) = v"
  shows "take k (drop (i + p) t) = v \<and> i + p + k \<le> length t"
proof -
  from assms(1,4) have "v = take k (drop p (take n (drop i t)))"
    by simp
  also have "\<dots> = take k (take (n - p) (drop (p + i) t))"
    by (simp add: drop_take)
  also have "\<dots> = take k (drop (i + p) t)"
    using assms(3) by (simp add: min_def add.commute)
  finally have "take k (drop (i + p) t) = v" by simp
  moreover from assms(2,3) have "i + p + k \<le> length t"
    by simp
  ultimately show ?thesis by simp
qed

lemma matchAt_slice:
  assumes "matchAt t rm" and "p + length v \<le> length (m0 rm)"
    and "take (length v) (drop p (m0 rm)) = v"
  shows "take (length v) (drop (index rm + p) t) = v \<and> index rm + p + length v \<le> length t"
proof -
  from assms(1) have a: "take (length (m0 rm)) (drop (index rm) t) = m0 rm"
    and b: "index rm + length (m0 rm) \<le> length t"
    by (simp_all add: matchAt_def)
  from slice_of_slice [OF a b assms(2,3)] show ?thesis .
qed

lemma toString_digit: "\<exists>d ds. toString n = d # ds \<and> isDigit d"
proof (induction n rule: toString.induct)
  case (1 n)
  show ?case
  proof (cases "n < 10")
    case True
    then have "isDigit (char_of (48 + n))"
      by (simp add: isDigit_def in_range_def code_def)
    with True show ?thesis
      by (subst toString.simps) simp
  next
    case False
    with "1.IH" obtain d ds where "toString (n div 10) = d # ds" and "isDigit d"
      by blast
    with False show ?thesis
      by (subst toString.simps) simp
  qed
qed

lemma id_families_differ:
  assumes "patternOK doc pm" and "contextOK doc cm"
  shows "id_m pm \<noteq> id_m cm"
proof
  assume eq: "id_m pm = id_m cm"
  from assms(1) obtain i l where p: "id_m pm = uri doc @ ''-'' @ toString i @ ''-'' @ toString l"
    unfolding patternOK_def by blast
  from assms(2) obtain tag n where t: "tag \<in> {''env'', ''json'', ''yaml'', ''generic''}"
    and c: "id_m cm = uri doc @ ''-'' @ tag @ ''-'' @ toString n"
    unfolding contextOK_def by blast
  obtain d ds where d: "toString i = d # ds" and dig: "isDigit d"
    using toString_digit by blast
  from eq p c d have "d # ds @ ''-'' @ toString l = tag @ ''-'' @ toString n"
    by simp
  with t have "d = CHR ''e'' \<or> d = CHR ''j'' \<or> d = CHR ''y'' \<or> d = CHR ''g''"
    by auto
  with dig show False
    by (auto simp: isDigit_def in_range_def code_def)
qed


text \<open>A candidate with the identity of a line of an environment file is one of the
  context analyzer, and its range covers its value.\<close>

lemma env_identity_within:
  assumes "patternOK doc m \<or> contextOK doc m \<or> customOK hs doc m"
    and "id_m m = uri doc @ ''-env-'' @ toString n"
  shows "within (getText doc) m"
proof -
  from assms(1) consider (p) "patternOK doc m" | (c) "contextOK doc m" | (x) "customOK hs doc m"
    by blast
  then show ?thesis
  proof cases
    case p
    then obtain i l where "id_m m = uri doc @ ''-'' @ toString i @ ''-'' @ toString l"
      unfolding patternOK_def by blast
    moreover obtain e es where "toString i = e # es" and "isDigit e"
      using toString_digit by blast
    ultimately have "isDigit CHR ''e''"
      using assms(2) by simp
    then show ?thesis
      by (simp add: isDigit_def in_range_def code_def)
  next
    case c
    then obtain tag k where "tag \<in> {''env'', ''json'', ''yaml'', ''generic''}"
      and "id_m m = uri doc @ ''-'' @ tag @ ''-'' @ toString k"
      and "tag = ''env'' \<longrightarrow> within (getText doc) m"
      unfolding contextOK_def by blast
    with assms(2) show ?thesis
      by auto
  next
    case x
    then obtain tag rest where "tag \<in> {''custom'', ''var'', ''str''}"
      and "id_m m = uri doc @ ''-'' @ tag @ ''-'' @ rest"
      unfolding customOK_def by blast
    with assms(2) show ?thesis
      by auto
  qed
qed

subsection \<open>The pattern matcher and the custom patterns\<close>

lemma findMatches_body_ok:
  assumes "matchAt (getText doc) rm" and "\<forall>m \<in> set acc. patternOK doc m"
  shows "\<forall>m \<in> set (findMatches_body pd (getText doc) doc rm acc). patternOK doc m"
proof (cases "length (m0 rm) < MIN_SECRET_LENGTH")
  case True
  with assms(2) show ?thesis by (simp add: findMatches_body_def Let_def)
next
  case False
  let ?new = "\<lparr>range_m = new_Range (positionAt doc (int (index rm)))
                                      (positionAt doc (int (index rm + length (m0 rm)))),
               type_m = pd_type pd, originalValue = m0 rm, confidence = minConfidence pd,
               isMasked = True,
               id_m = uri doc @ ''-'' @ toString (index rm) @ ''-'' @ toString (length (m0 rm)),
               keyName = findKeyName (getText doc) (index rm)\<rparr>"
  from assms(1) have fits: "index rm + length (m0 rm) \<le> length (getText doc)"
    and here: "take (length (m0 rm)) (drop (index rm) (getText doc)) = m0 rm"
    by (simp_all add: matchAt_def)
  have "spans doc ?new"
    by (rule spans_value [where a = "index rm" and v = "m0 rm"]) (simp_all add: fits here)
  with False have "patternOK doc ?new"
    unfolding patternOK_def by auto
  with assms(2) False show ?thesis
    by (auto simp: findMatches_body_def Let_def)
qed

lemma findMatches_loop_ok:
  "findMatches_loop pds (getText doc) doc acc = Some res \<Longrightarrow> \<forall>m \<in> set acc. patternOK doc m
     \<Longrightarrow> \<forall>m \<in> set res. patternOK doc m"
proof (induction pds arbitrary: acc)
  case Nil
  then show ?case by simp
next
  case (Cons pd pds)
  from Cons.prems(1) obtain found where f: "execAll (pd_pattern pd) (getText doc) 0 = Some found"
    and r: "findMatches_loop pds (getText doc) doc
              (fold (findMatches_body pd (getText doc) doc) found acc) = Some res"
    by (auto split: option.splits)
  have "\<forall>m \<in> set (fold (findMatches_body pd (getText doc) doc) found acc). patternOK doc m"
    using Cons.prems(2) execAll_matchAt [OF f]
    by (intro fold_invariant) (auto intro: findMatches_body_ok [rule_format])
  from Cons.IH [OF r this] show ?case .
qed

lemma findMatches_ok:
  "findMatches pm (getText doc) doc = Some res \<Longrightarrow> \<forall>m \<in> set res. patternOK doc m"
  unfolding findMatches_def by (auto simp: Let_def dest: findMatches_loop_ok)

lemma findPatternMatches_body_ok:
  assumes "matchAt (getText doc) rm" and "\<forall>m \<in> set acc. customOK hs doc m"
  shows "\<forall>m \<in> set (findPatternMatches_body doc name rm acc). customOK hs doc m"
proof (cases "length (m0 rm) < MIN_SECRET_LENGTH")
  case True
  with assms(2) show ?thesis by (simp add: findPatternMatches_body_def)
next
  case False
  let ?new = "\<lparr>range_m = new_Range (positionAt doc (int (index rm)))
                                      (positionAt doc (int (index rm + length (m0 rm)))),
               type_m = CUSTOM_PATTERN, originalValue = m0 rm, confidence = 90,
               isMasked = True,
               id_m = uri doc @ ''-custom-'' @ name @ ''-'' @ toString (index rm),
               keyName = None\<rparr>"
  from assms(1) have fits: "index rm + length (m0 rm) \<le> length (getText doc)"
    and here: "take (length (m0 rm)) (drop (index rm) (getText doc)) = m0 rm"
    by (simp_all add: matchAt_def)
  have "spans doc ?new"
    by (rule spans_value [where a = "index rm" and v = "m0 rm"]) (simp_all add: fits here)
  then have "customOK hs doc ?new"
  proof (rule customOK_intro [where tag = "''custom''"
        and rest = "name @ ''-'' @ toString (index rm)"])
  qed (use False in simp_all)
  with assms(2) False show ?thesis
    by (auto simp: findPatternMatches_body_def Let_def)
qed

lemma findPatternMatches_loop_ok:
  "findPatternMatches_loop ps doc (getText doc) acc = Some res \<Longrightarrow>
     \<forall>m \<in> set acc. customOK hs doc m \<Longrightarrow> \<forall>m \<in> set res. customOK hs doc m"
proof (induction ps arbitrary: acc)
  case Nil
  then show ?case by simp
next
  case (Cons p ps)
  obtain name pat where p: "p = (name, pat)" by (cases p)
  from Cons.prems(1) p obtain found where f: "execAll pat (getText doc) 0 = Some found"
    and r: "findPatternMatches_loop ps doc (getText doc)
              (fold (findPatternMatches_body doc name) found acc) = Some res"
    by (auto split: option.splits)
  have "\<forall>m \<in> set (fold (findPatternMatches_body doc name) found acc). customOK hs doc m"
    using Cons.prems(2) execAll_matchAt [OF f]
    by (intro fold_invariant) (auto intro: findPatternMatches_body_ok [rule_format])
  from Cons.IH [OF r this] show ?case .
qed

lemma findPatternMatches_ok:
  "findPatternMatches crm doc (getText doc) acc = Some res \<Longrightarrow>
     \<forall>m \<in> set acc. customOK hs doc m \<Longrightarrow> \<forall>m \<in> set res. customOK hs doc m"
  unfolding findPatternMatches_def by (rule findPatternMatches_loop_ok)

subsection \<open>The context analyzer\<close>

lemma findEnvMatches_line_fields:
  assumes "findEnvMatches_line doc lineNum offset l = Some m"
    and "line = (if endsWith l [CR] then slice_0_m1 l else l)"
  shows "\<exists>k. indexOf line ''='' 0 = Some k
      \<and> range_m m = new_Range (positionAt doc (int (offset + (k + 1))))
                               (positionAt doc (int (offset + length line)))
      \<and> originalValue m = drop (k + 1) line
      \<and> type_m m = ENV_VALUE
      \<and> id_m m = uri doc @ ''-'' @ ''env'' @ ''-'' @ toString lineNum
      \<and> keyName m = Some (trim (substring line 0 k))
      \<and> (isSensitiveKeyName (trim (substring line 0 k))
          \<or> MIN_SECRET_LENGTH \<le> length (stripQuotes (trim (drop (k + 1) line))))"
  using assms(1) unfolding findEnvMatches_line_def Let_def assms(2) [symmetric]
  by (auto simp: substringFrom_def simp del: of_nat_add of_nat_Suc
        split: if_splits option.splits)

lemma findEnvMatches_line_ok:
  assumes "findEnvMatches_line doc lineNum offset l = Some m"
    and "offset + length l \<le> length (getText doc)"
    and "take (length l) (drop offset (getText doc)) = l"
  shows "contextOK doc m"
proof -
  define line where "line = (if endsWith l [CR] then slice_0_m1 l else l)"
  have pre: "line = take (length line) l" and len: "length line \<le> length l"
    by (simp_all add: line_def slice_0_m1_def butlast_conv_take)
  from findEnvMatches_line_fields [OF assms(1) line_def]
  obtain k where k: "indexOf line ''='' 0 = Some k"
    and rg: "range_m m = new_Range (positionAt doc (int (offset + (k + 1))))
                                   (positionAt doc (int (offset + length line)))"
    and val: "originalValue m = drop (k + 1) line"
    and ty: "type_m m = ENV_VALUE"
    and ident: "id_m m = uri doc @ ''-'' @ ''env'' @ ''-'' @ toString lineNum"
    and key: "keyName m = Some (trim (substring line 0 k))"
    and why: "isSensitiveKeyName (trim (substring line 0 k))
              \<or> MIN_SECRET_LENGTH \<le> length (stripQuotes (trim (drop (k + 1) line)))"
    by blast
  from indexOf_sound [OF k] have kl: "k + 1 \<le> length line"
    and eq: "take (length ''='') (drop k line) = ''=''"
    by simp_all
  have whole: "take (length line) (drop offset (getText doc)) = line"
  proof -
    have "take (length line) (drop offset (getText doc))
            = take (length line) (take (length l) (drop offset (getText doc)))"
      using len by (simp add: min_def)
    also have "\<dots> = line"
      using assms(3) pre by simp
    finally show ?thesis .
  qed
  have fits: "offset + length line \<le> length (getText doc)"
    using assms(2) len by simp
  define v where "v = drop (k + 1) line"
  have lv: "k + 1 + length v = length line"
    using kl by (simp add: v_def)
  have "take (length v) (drop (k + 1) line) = v"
    by (simp add: v_def)
  with slice_of_slice [OF whole fits, of "k + 1" "length v" v] lv
  have sl: "take (length v) (drop (offset + (k + 1)) (getText doc)) = v"
    by simp
  have eqs: "int (offset + length line) = int (offset + (k + 1) + length v)"
    and fits': "offset + (k + 1) + length v \<le> length (getText doc)"
    using lv fits by simp_all
  have val': "originalValue m = v"
    using val by (simp add: v_def)
  have sp: "spans doc m"
    by (rule spans_value [OF rg val' refl eqs fits' sl])
  from take_drop_nth [OF eq, of 0] have "line ! k = CHR ''=''"
    by simp
  moreover from take_drop_nth [OF whole, of k] kl
  have "getText doc ! (offset + k) = line ! k"
    by simp
  ultimately have "getText doc ! (offset + k) \<noteq> CR"
    by (simp add: CR_def)
  then have pa: "positionAt doc (int (offset + (k + 1))) = offset + (k + 1)"
    using kl fits by (intro positionAt_exact) simp_all
  from kl len have ne: "l \<noteq> []"
    by (cases l) simp_all
  have edge: "getText doc ! (offset + length line) \<noteq> LF
        \<or> getText doc ! (offset + length line - 1) \<noteq> CR"
  proof (cases "endsWith l [CR]")
    case True
    then have ll: "line = butlast l"
      by (simp add: line_def slice_0_m1_def)
    from True ne have "length (butlast l) < length l" and "l ! length (butlast l) = CR"
      by (simp_all add: endsWith_CR last_conv_nth)
    with take_drop_nth [OF assms(3), of "length (butlast l)"]
    have "getText doc ! (offset + length (butlast l)) = CR"
      by simp
    then show ?thesis
      unfolding ll by (simp add: CR_def LF_def)
  next
    case False
    then have ll: "line = l"
      by (simp add: line_def)
    from False ne have "last l \<noteq> CR"
      by (simp add: endsWith_CR)
    moreover from ne have "last l = l ! (length l - 1)"
      by (simp add: last_conv_nth)
    moreover from take_drop_nth [OF assms(3), of "length l - 1"] ne
    have "getText doc ! (offset + (length l - 1)) = l ! (length l - 1)"
      by simp
    moreover from ne have "offset + length l - 1 = offset + (length l - 1)"
      by (cases l) simp_all
    ultimately have "getText doc ! (offset + length l - 1) \<noteq> CR"
      by simp
    then show ?thesis
      unfolding ll by simp
  qed
  have stop: "positionAt doc (int (offset + length line)) = offset + length line"
    using fits edge by (intro positionAt_exact) auto
  have same: "offset + (k + 1) + length v = offset + length line"
    using lv by simp
  have pb: "positionAt doc (int (offset + (k + 1) + length v)) = offset + (k + 1) + length v"
    unfolding same by (rule stop)
  have "within (getText doc) m"
    by (rule within_value [OF rg val' refl eqs fits' sl pa pb])
  moreover have "length (stripQuotes (trim v)) \<le> length v"
    using length_stripQuotes [of "trim v"] length_trim [of v]
    by (rule order_trans)
  with why val' ty key have "MIN_SECRET_LENGTH \<le> length (originalValue m)
      \<or> (type_m m = ENV_VALUE \<and> (\<exists>kn. keyName m = Some kn \<and> isSensitiveKeyName kn))"
    by (auto simp: v_def)
  ultimately show ?thesis
    unfolding contextOK_def using sp ident by blast
qed

lemma findEnvMatches_loop_ok:
  "linesAt (getText doc) offset ls \<Longrightarrow> \<forall>m \<in> set acc. contextOK doc m \<Longrightarrow>
     \<forall>m \<in> set (findEnvMatches_loop doc ls lineNum offset acc). contextOK doc m"
proof (induction ls arbitrary: lineNum offset acc)
  case Nil
  then show ?case by simp
next
  case (Cons l ls)
  from linesAt_Cons [OF Cons.prems(1)]
  have fits: "offset + length l \<le> length (getText doc)"
    and here: "take (length l) (drop offset (getText doc)) = l"
    and rest: "linesAt (getText doc) (offset + length l + 1) ls"
    by simp_all
  have "\<forall>m \<in> set (case findEnvMatches_line doc lineNum offset l of
                      None \<Rightarrow> acc | Some m \<Rightarrow> acc @ [m]). contextOK doc m"
    using Cons.prems(2) findEnvMatches_line_ok [OF _ fits here]
    by (auto split: option.splits)
  from Cons.IH [OF rest this] show ?case by simp
qed

lemma findEnvMatches_ok:
  "\<forall>m \<in> set (findEnvMatches doc (getText doc) []). contextOK doc m"
  unfolding findEnvMatches_def
  by (rule findEnvMatches_loop_ok) (simp_all add: linesAt_split)

lemma quoted_inside:
  assumes "take (length v + 2) (drop p w) = [q] @ v @ [q']" and "p + (length v + 2) \<le> length w"
  shows "take (length v) (drop (p + 1) w) = v \<and> p + 1 + length v \<le> length w"
proof -
  have "drop p w = take (length v + 2) (drop p w) @ drop (length v + 2) (drop p w)"
    by (simp only: append_take_drop_id)
  with assms(1) have "drop p w = q # v @ q' # drop (length v + 2) (drop p w)"
    by simp
  then have "drop 1 (drop p w) = v @ q' # drop (length v + 2) (drop p w)"
    by simp
  then have "drop (p + 1) w = v @ q' # drop (length v + 2) (drop p w)"
    by (simp add: add.commute)
  then have "take (length v) (drop (p + 1) w) = v"
    by simp
  with assms(2) show ?thesis by simp
qed

lemma findJsonMatches_body_ok:
  assumes "exec jsonPattern (getText doc) i = Some rm" and "matchAt (getText doc) rm"
    and "\<forall>m \<in> set acc. contextOK doc m"
  shows "\<forall>m \<in> set (findJsonMatches_body doc rm acc). contextOK doc m"
proof (cases "\<exists>kn v. group rm 1 = Some kn \<and> group rm 2 = Some v
                \<and> isSensitiveKeyName kn \<and> MIN_SECRET_LENGTH \<le> length v")
  case False
  then have "findJsonMatches_body doc rm acc = acc"
    by (auto simp: findJsonMatches_body_def split: option.splits)
  with assms(3) show ?thesis by simp
next
  case True
  then obtain kn v where g: "group rm 1 = Some kn" "group rm 2 = Some v"
    and ok: "isSensitiveKeyName kn" "MIN_SECRET_LENGTH \<le> length v"
    by blast
  from jsonPattern_value [OF assms(1) g(2)] have "sublist ([DQ] @ v @ [DQ]) (m0 rm)" .
  from lastIndexOf_complete [OF this] obtain p
    where p: "lastIndexOf (m0 rm) ([DQ] @ v @ [DQ]) = Some p"
    by blast
  from lastIndexOf_sound [OF p]
  have "p + (length v + 2) \<le> length (m0 rm)"
    and "take (length v + 2) (drop p (m0 rm)) = [DQ] @ v @ [DQ]"
    by simp_all
  from quoted_inside [OF this(2) this(1)]
  have "take (length v) (drop (p + 1) (m0 rm)) = v" and "p + 1 + length v \<le> length (m0 rm)"
    by simp_all
  from matchAt_slice [OF assms(2) this(2) this(1)]
  have sl: "take (length v) (drop (index rm + (p + 1)) (getText doc)) = v"
    and fits: "index rm + (p + 1) + length v \<le> length (getText doc)"
    by simp_all
  let ?new = "\<lparr>range_m = new_Range (positionAt doc (int (index rm) + int p + 1))
                                      (positionAt doc (int (index rm) + int p + 1 + int (length v))),
               type_m = GENERIC_SECRET, originalValue = v, confidence = 75, isMasked = True,
               id_m = uri doc @ ''-json-'' @ toString (index rm), keyName = Some kn\<rparr>"
  have body: "findJsonMatches_body doc rm acc = acc @ [?new]"
    using g ok p by (simp add: findJsonMatches_body_def js_index_def Let_def)
  have "spans doc ?new"
  proof (rule spans_value [where a = "index rm + (p + 1)" and v = v
        and A = "int (index rm) + int p + 1"
        and B = "int (index rm) + int p + 1 + int (length v)"])
  qed (use sl fits in simp_all)
  moreover have "MIN_SECRET_LENGTH \<le> length (originalValue ?new)"
    using ok(2) by simp
  moreover have "id_m ?new = uri doc @ ''-'' @ ''json'' @ ''-'' @ toString (index rm)"
    by simp
  ultimately have "contextOK doc ?new"
    by (rule contextOK_intro) simp
  with assms(3) body show ?thesis by simp
qed

lemma findJsonMatches_ok:
  assumes "findJsonMatches doc (getText doc) [] = Some res"
  shows "\<forall>m \<in> set res. contextOK doc m"
proof -
  from assms obtain found where f: "execAll jsonPattern (getText doc) 0 = Some found"
    and res: "res = fold (findJsonMatches_body doc) found []"
    by (auto simp: findJsonMatches_def)
  show ?thesis
    unfolding res
  proof (rule fold_invariant)
    fix rm acc
    assume "rm \<in> set found" and inv: "\<forall>m \<in> set acc. contextOK doc m"
    from execAll_matchAt [OF f this(1)] obtain k
      where "exec jsonPattern (getText doc) k = Some rm" and "matchAt (getText doc) rm"
      by blast
    from findJsonMatches_body_ok [OF this inv]
    show "\<forall>m \<in> set (findJsonMatches_body doc rm acc). contextOK doc m" .
  qed simp
qed

lemma matchAt_sublist: "matchAt s rm \<Longrightarrow> sublist (m0 rm) s"
proof -
  assume "matchAt s rm"
  then have "m0 rm = take (length (m0 rm)) (drop (index rm) s)"
    by (simp add: matchAt_def)
  moreover have "sublist (take (length (m0 rm)) (drop (index rm) s)) (drop (index rm) s)"
    by (rule sublist_take)
  moreover have "sublist (drop (index rm) s) s"
    by (rule sublist_drop)
  ultimately show ?thesis
    by (metis sublist_order.order_trans)
qed

lemma findYamlMatches_line_ok:
  assumes "findYamlMatches_line doc lineNum offset l = Some m"
    and "offset + length l \<le> length (getText doc)"
    and "take (length l) (drop offset (getText doc)) = l"
  shows "contextOK doc m"
proof -
  from assms(1) obtain ym kn g3 where ym: "exec yamlPattern l 0 = Some ym"
    and g: "group ym 3 = Some g3"
    and long: "MIN_SECRET_LENGTH \<le> length (stripQuotes (trim g3))"
    unfolding findYamlMatches_line_def
    by (auto simp: Let_def split: if_splits option.splits)
  from assms(1) ym g
  have rg: "range_m m = new_Range (positionAt doc (int offset + js_index (indexOf l g3 0)))
              (positionAt doc (int offset + js_index (indexOf l g3 0) + int (length g3)))"
    and val: "originalValue m = g3"
    and ident: "id_m m = uri doc @ ''-'' @ ''yaml'' @ ''-'' @ toString lineNum"
    unfolding findYamlMatches_line_def
    by (auto simp: Let_def split: if_splits option.splits)
  from exec_matchAt [OF ym] have at: "matchAt l ym" .
  from group_sublist [OF at g] matchAt_sublist [OF at] have "sublist g3 l"
    by (metis sublist_order.order_trans)
  from indexOf_complete [OF this] obtain k where k: "indexOf l g3 0 = Some k"
    by blast
  from indexOf_sound [OF k] have "k + length g3 \<le> length l"
    and "take (length g3) (drop k l) = g3"
    by simp_all
  from slice_of_slice [OF assms(3,2) this]
  have sl: "take (length g3) (drop (offset + k) (getText doc)) = g3"
    and fits: "offset + k + length g3 \<le> length (getText doc)"
    by simp_all
  have "spans doc m"
  proof (rule spans_value [where a = "offset + k" and v = g3
        and A = "int offset + js_index (indexOf l g3 0)"
        and B = "int offset + js_index (indexOf l g3 0) + int (length g3)"])
  qed (use rg val sl fits k in \<open>simp_all add: js_index_def\<close>)
  moreover have "length (stripQuotes (trim g3)) \<le> length g3"
    using length_stripQuotes [of "trim g3"] length_trim [of g3] by simp
  with long val have "MIN_SECRET_LENGTH \<le> length (originalValue m)"
    by simp
  ultimately show ?thesis
    using ident by (rule contextOK_intro) simp
qed

lemma findYamlMatches_loop_ok:
  "linesAt (getText doc) offset ls \<Longrightarrow> \<forall>m \<in> set acc. contextOK doc m \<Longrightarrow>
     \<forall>m \<in> set (findYamlMatches_loop doc ls lineNum offset acc). contextOK doc m"
proof (induction ls arbitrary: lineNum offset acc)
  case Nil
  then show ?case by simp
next
  case (Cons l ls)
  from linesAt_Cons [OF Cons.prems(1)]
  have fits: "offset + length l \<le> length (getText doc)"
    and here: "take (length l) (drop offset (getText doc)) = l"
    and rest: "linesAt (getText doc) (offset + length l + 1) ls"
    by simp_all
  have "\<forall>m \<in> set (case findYamlMatches_line doc lineNum offset l of
                      None \<Rightarrow> acc | Some m \<Rightarrow> acc @ [m]). contextOK doc m"
    using Cons.prems(2) findYamlMatches_line_ok [OF _ fits here]
    by (auto split: option.splits)
  from Cons.IH [OF rest this] show ?case by simp
qed

lemma findYamlMatches_ok:
  "\<forall>m \<in> set (findYamlMatches doc (getText doc) []). contextOK doc m"
  unfolding findYamlMatches_def
  by (rule findYamlMatches_loop_ok) (simp_all add: linesAt_split)

text \<open>The value captured by an expression lies in the match, so \<open>lastIndexOf\<close> finds it.\<close>

lemma captured_value:
  assumes "matchAt (getText doc) rm" and "group rm n = Some v"
  shows "\<exists>p. lastIndexOf (m0 rm) v = Some p
           \<and> take (length v) (drop (index rm + p) (getText doc)) = v
           \<and> index rm + p + length v \<le> length (getText doc)"
proof -
  from group_sublist [OF assms] have "sublist v (m0 rm)" .
  from lastIndexOf_complete [OF this] obtain p where p: "lastIndexOf (m0 rm) v = Some p"
    by blast
  from lastIndexOf_sound [OF p] have "p + length v \<le> length (m0 rm)"
    and "take (length v) (drop p (m0 rm)) = v"
    by simp_all
  from matchAt_slice [OF assms(1) this] p show ?thesis
    by blast
qed

lemma findGenericMatches_body_ok:
  assumes "matchAt (getText doc) rm" and "\<forall>m \<in> set acc. contextOK doc m"
  shows "\<forall>m \<in> set (findGenericMatches_body doc rm acc). contextOK doc m"
proof (cases "\<exists>kn v. group rm 1 = Some kn \<and> group rm 2 = Some v
                \<and> isSensitiveKeyName kn \<and> MIN_SECRET_LENGTH \<le> length v")
  case False
  then have "findGenericMatches_body doc rm acc = acc"
    by (auto simp: findGenericMatches_body_def Let_def split: option.splits)
  with assms(2) show ?thesis by simp
next
  case True
  then obtain kn v where g: "group rm 1 = Some kn" "group rm 2 = Some v"
    and ok: "isSensitiveKeyName kn" "MIN_SECRET_LENGTH \<le> length v"
    by blast
  from captured_value [OF assms(1) g(2)] obtain p where p: "lastIndexOf (m0 rm) v = Some p"
    and sl: "take (length v) (drop (index rm + p) (getText doc)) = v"
    and fits: "index rm + p + length v \<le> length (getText doc)"
    by blast
  let ?new = "\<lparr>range_m = new_Range (positionAt doc (int (index rm) + int p))
                                      (positionAt doc (int (index rm) + int p + int (length v))),
               type_m = GENERIC_SECRET, originalValue = v, confidence = 65, isMasked = True,
               id_m = uri doc @ ''-generic-'' @ toString (index rm), keyName = Some kn\<rparr>"
  from ok(2) have ne: "v \<noteq> []"
    by (auto simp: MIN_SECRET_LENGTH_def)
  have body: "set (findGenericMatches_body doc rm acc) \<subseteq> set acc \<union> {?new}"
    using g ok ne p by (auto simp: findGenericMatches_body_def js_index_def truthy_def Let_def)
  have "spans doc ?new"
  proof (rule spans_value [where a = "index rm + p" and v = v
        and A = "int (index rm) + int p"
        and B = "int (index rm) + int p + int (length v)"])
  qed (use sl fits in simp_all)
  moreover have "MIN_SECRET_LENGTH \<le> length (originalValue ?new)"
    using ok(2) by simp
  moreover have "id_m ?new = uri doc @ ''-'' @ ''generic'' @ ''-'' @ toString (index rm)"
    by simp
  ultimately have "contextOK doc ?new"
    by (rule contextOK_intro) simp
  with assms(2) body show ?thesis by blast
qed

lemma findGenericMatches_loop_ok:
  "findGenericMatches_loop ps doc (getText doc) acc = Some res \<Longrightarrow>
     \<forall>m \<in> set acc. contextOK doc m \<Longrightarrow> \<forall>m \<in> set res. contextOK doc m"
proof (induction ps arbitrary: acc)
  case Nil
  then show ?case by simp
next
  case (Cons p ps)
  from Cons.prems(1) obtain found where f: "execAll p (getText doc) 0 = Some found"
    and r: "findGenericMatches_loop ps doc (getText doc)
              (fold (findGenericMatches_body doc) found acc) = Some res"
    by (auto split: option.splits)
  have "\<forall>m \<in> set (fold (findGenericMatches_body doc) found acc). contextOK doc m"
    using Cons.prems(2) execAll_matchAt [OF f]
    by (intro fold_invariant) (auto intro: findGenericMatches_body_ok [rule_format])
  from Cons.IH [OF r this] show ?case .
qed

lemma findContextMatches_ok:
  assumes "findContextMatches doc = Some res"
  shows "\<forall>m \<in> set res. contextOK doc m"
proof -
  have none: "\<forall>m \<in> set ([] :: SensitiveMatch list). contextOK doc m"
    by simp
  from assms have "res = findEnvMatches doc (getText doc) []
      \<or> findJsonMatches doc (getText doc) [] = Some res
      \<or> res = findYamlMatches doc (getText doc) []
      \<or> findGenericMatches doc (getText doc) [] = Some res"
    unfolding findContextMatches_def Let_def by (simp split: if_splits)
  then consider "res = findEnvMatches doc (getText doc) []"
    | "findJsonMatches doc (getText doc) [] = Some res"
    | "res = findYamlMatches doc (getText doc) []"
    | "findGenericMatches doc (getText doc) [] = Some res"
    by blast
  then show ?thesis
  proof cases
    case 1
    show ?thesis unfolding 1 by (rule findEnvMatches_ok)
  next
    case 2
    then show ?thesis by (rule findJsonMatches_ok)
  next
    case 3
    show ?thesis unfolding 3 by (rule findYamlMatches_ok)
  next
    case 4
    then show ?thesis
      unfolding findGenericMatches_def using none by (rule findGenericMatches_loop_ok)
  qed
qed

subsection \<open>The custom rules\<close>

lemma findHiddenVariableMatches_body_ok:
  assumes "matchAt (getText doc) rm" and "\<forall>m \<in> set acc. customOK hs doc m"
  shows "\<forall>m \<in> set (findHiddenVariableMatches_body doc variable rm acc). customOK hs doc m"
proof (cases "\<exists>v. group rm 1 = Some v \<and> MIN_SECRET_LENGTH \<le> length v")
  case False
  then have "findHiddenVariableMatches_body doc variable rm acc = acc"
    by (auto simp: findHiddenVariableMatches_body_def split: option.splits)
  with assms(2) show ?thesis by simp
next
  case True
  then obtain v where g: "group rm 1 = Some v" and ok: "MIN_SECRET_LENGTH \<le> length v"
    by blast
  from captured_value [OF assms(1) g] obtain p where p: "lastIndexOf (m0 rm) v = Some p"
    and sl: "take (length v) (drop (index rm + p) (getText doc)) = v"
    and fits: "index rm + p + length v \<le> length (getText doc)"
    by blast
  let ?new = "\<lparr>range_m = new_Range (positionAt doc (int (index rm) + int p))
                                      (positionAt doc (int (index rm) + int p + int (length v))),
               type_m = CUSTOM_PATTERN, originalValue = v, confidence = 95, isMasked = True,
               id_m = uri doc @ ''-var-'' @ variable @ ''-'' @ toString (index rm),
               keyName = Some variable\<rparr>"
  from ok have ne: "v \<noteq> []"
    by (auto simp: MIN_SECRET_LENGTH_def)
  have body: "findHiddenVariableMatches_body doc variable rm acc = acc @ [?new]"
    using g ok ne p by (simp add: findHiddenVariableMatches_body_def js_index_def Let_def)
  have "spans doc ?new"
  proof (rule spans_value [where a = "index rm + p" and v = v
        and A = "int (index rm) + int p"
        and B = "int (index rm) + int p + int (length v)"])
  qed (use sl fits in simp_all)
  then have "customOK hs doc ?new"
  proof (rule customOK_intro [where tag = "''var''"
        and rest = "variable @ ''-'' @ toString (index rm)"])
  qed (use ok in simp_all)
  with assms(2) body show ?thesis by simp
qed

lemma findHiddenVariableMatches_patterns_ok:
  "findHiddenVariableMatches_patterns ps doc (getText doc) variable acc = Some res \<Longrightarrow>
     \<forall>m \<in> set acc. customOK hs doc m \<Longrightarrow> \<forall>m \<in> set res. customOK hs doc m"
proof (induction ps arbitrary: acc)
  case Nil
  then show ?case by simp
next
  case (Cons p ps)
  from Cons.prems(1) obtain found where f: "execAll p (getText doc) 0 = Some found"
    and r: "findHiddenVariableMatches_patterns ps doc (getText doc) variable
              (fold (findHiddenVariableMatches_body doc variable) found acc) = Some res"
    by (auto split: option.splits)
  have "\<forall>m \<in> set (fold (findHiddenVariableMatches_body doc variable) found acc). customOK hs doc m"
    using Cons.prems(2) execAll_matchAt [OF f]
    by (intro fold_invariant) (auto intro: findHiddenVariableMatches_body_ok [rule_format])
  from Cons.IH [OF r this] show ?case .
qed

lemma findHiddenVariableMatches_loop_ok:
  "findHiddenVariableMatches_loop vs doc (getText doc) acc = Some res \<Longrightarrow>
     \<forall>m \<in> set acc. customOK hs doc m \<Longrightarrow> \<forall>m \<in> set res. customOK hs doc m"
proof (induction vs arbitrary: acc)
  case Nil
  then show ?case by simp
next
  case (Cons variable vs)
  from Cons.prems(1) obtain acc' where
    a: "findHiddenVariableMatches_patterns (hiddenVariablePatterns variable) doc (getText doc)
          variable acc = Some acc'"
    and r: "findHiddenVariableMatches_loop vs doc (getText doc) acc' = Some res"
    by (auto split: option.splits)
  from findHiddenVariableMatches_patterns_ok [OF a Cons.prems(2)]
  have "\<forall>m \<in> set acc'. customOK hs doc m" .
  from Cons.IH [OF r this] show ?case .
qed

lemma findHiddenStringMatches_while_ok:
  "t = getText doc \<Longrightarrow> idx \<le> length t \<Longrightarrow> str \<in> set hs \<Longrightarrow>
     \<forall>m \<in> set acc. customOK hs doc m \<Longrightarrow>
     \<forall>m \<in> set (findHiddenStringMatches_while doc t str idx acc). customOK hs doc m"
proof (induction doc t str idx acc rule: findHiddenStringMatches_while.induct)
  case (1 doc t str idx acc)
  show ?case
  proof (cases "length str < 3")
    case True
    with "1.prems"(4) show ?thesis
      by (subst findHiddenStringMatches_while.simps) simp
  next
    case long: False
    show ?thesis
    proof (cases "indexOf t str idx")
      case None
      with long "1.prems"(4) show ?thesis
        by (subst findHiddenStringMatches_while.simps) simp
    next
      case (Some i)
      from indexOf_sound [OF Some "1.prems"(2)]
      have fits: "i + length str \<le> length t" and here: "take (length str) (drop i t) = str"
        by simp_all
      let ?new = "\<lparr>range_m = new_Range (positionAt doc (int i)) (positionAt doc (int (i + length str))),
                   type_m = CUSTOM_PATTERN, originalValue = str, confidence = 100,
                   isMasked = True, id_m = uri doc @ ''-str-'' @ toString i, keyName = None\<rparr>"
      let ?overlaps = "list_ex (\<lambda>x.
             (r_start (range_m x) < positionAt doc (int (i + length str))
               \<or> r_start (range_m x) = positionAt doc (int (i + length str)))
             \<and> (positionAt doc (int i) < r_end (range_m x)
               \<or> r_end (range_m x) = positionAt doc (int i))) acc"
      let ?acc = "if \<not> ?overlaps then acc @ [?new] else acc"
      have "spans doc ?new"
      proof (rule spans_value [where a = i and v = str and A = "int i"
            and B = "int (i + length str)"])
      qed (use fits here "1.prems"(1) in simp_all)
      then have "customOK hs doc ?new"
      proof (rule customOK_intro [where tag = "''str''" and rest = "toString i"])
      qed (use long "1.prems"(3) in simp_all)
      with "1.prems"(4) have inv: "\<forall>m \<in> set ?acc. customOK hs doc m"
        by simp
      have "\<forall>m \<in> set (findHiddenStringMatches_while doc t str (i + length str) ?acc).
              customOK hs doc m"
        using long Some "1.prems"(1) fits "1.prems"(3) inv
        by (intro "1.IH" [OF long Some refl refl refl])
      with long Some show ?thesis
        by (subst findHiddenStringMatches_while.simps) (simp add: Let_def)
    qed
  qed
qed

lemma findHiddenStringMatches_ok:
  assumes "\<forall>m \<in> set acc. customOK (crm_hiddenStrings crm) doc m"
  shows "\<forall>m \<in> set (findHiddenStringMatches crm doc (getText doc) acc).
           customOK (crm_hiddenStrings crm) doc m"
  unfolding findHiddenStringMatches_def
proof (rule fold_invariant)
  fix str acc'
  assume "str \<in> set (crm_hiddenStrings crm)"
    and "\<forall>m \<in> set acc'. customOK (crm_hiddenStrings crm) doc m"
  then show "\<forall>m \<in> set (findHiddenStringMatches_while doc (getText doc) str 0 acc').
               customOK (crm_hiddenStrings crm) doc m"
    by (intro findHiddenStringMatches_while_ok) simp_all
qed (rule assms)

lemma findCustomMatches_ok:
  assumes "findCustomMatches crm doc = Some res"
  shows "\<forall>m \<in> set res. customOK (crm_hiddenStrings crm) doc m"
proof -
  from assms obtain acc1 acc2 where a: "findPatternMatches crm doc (getText doc) [] = Some acc1"
    and b: "findHiddenVariableMatches crm doc (getText doc) acc1 = Some acc2"
    and c: "res = findHiddenStringMatches crm doc (getText doc) acc2"
    unfolding findCustomMatches_def by (auto simp: Let_def split: option.splits)
  have "\<forall>m \<in> set acc1. customOK (crm_hiddenStrings crm) doc m"
    by (rule findPatternMatches_ok [OF a]) simp
  with b have "\<forall>m \<in> set acc2. customOK (crm_hiddenStrings crm) doc m"
    unfolding findHiddenVariableMatches_def by (rule findHiddenVariableMatches_loop_ok)
  then show ?thesis
    unfolding c by (rule findHiddenStringMatches_ok)
qed

section \<open>The result of a scan\<close>

text \<open>
  \<open>finalOf e doc c\<close> is what a scan makes of the candidate \<open>c\<close> it accepts: the confidence
  is boosted and the flag is the stored one.
\<close>

definition finalOf :: "DetectionEngine \<Rightarrow> TextDocument \<Rightarrow> SensitiveMatch \<Rightarrow> SensitiveMatch" where
  "finalOf e doc c = (applyBoost (getContext doc) c)
     \<lparr>isMasked := priorFlag (map_option matchStates (documentStates e (uri doc))) (id_m c)\<rparr>"

lemma finalOf_fields [simp]:
  "range_m (finalOf e doc c) = range_m c"
  "type_m (finalOf e doc c) = type_m c"
  "originalValue (finalOf e doc c) = originalValue c"
  "id_m (finalOf e doc c) = id_m c"
  "keyName (finalOf e doc c) = keyName c"
  "confidence (finalOf e doc c)
     = min 100 (confidence c + calculateConfidenceBoost (getContext doc) (keyName c))"
  by (simp_all add: finalOf_def applyBoost_def Let_def)

lemma finalizeMatches_set: "set (finalizeMatches e doc allMatches) = finalOf e doc ` set allMatches"
proof -
  have "\<And>c. (applyBoost (getContext doc) c)
          \<lparr>isMasked := priorFlag (map_option matchStates (documentStates e (uri doc)))
                          (id_m (applyBoost (getContext doc) c))\<rparr> = finalOf e doc c"
    by (simp add: finalOf_def applyBoost_def Let_def)
  then have "finalizeMatches e doc allMatches
      = map (\<lambda>m. m\<lparr>isMasked := priorFlag (map_option matchStates (documentStates e (uri doc))) (id_m m)\<rparr>)
          (sort_key (\<lambda>m. r_start (range_m m)) (map (applyBoost (getContext doc)) allMatches))"
    by (simp add: finalizeMatches_def)
  then have "set (finalizeMatches e doc allMatches)
      = (\<lambda>m. m\<lparr>isMasked := priorFlag (map_option matchStates (documentStates e (uri doc))) (id_m m)\<rparr>)
          ` applyBoost (getContext doc) ` set allMatches"
    by simp
  also have "\<dots> = finalOf e doc ` set allMatches"
    by (auto simp: finalOf_def applyBoost_def Let_def image_iff)
  finally show ?thesis .
qed

lemma scanDocument_origin:
  assumes "scanDocument doc now e = Some (res, e')" and "m \<in> set res"
  shows "\<exists>allMatches c. collectMatches e doc = Some allMatches \<and> c \<in> set allMatches
           \<and> m = finalOf e doc c"
proof -
  from scanDocument_cases [OF assms(1)] assms(2)
  obtain allMatches where "collectMatches e doc = Some allMatches"
    and "res = finalizeMatches e doc allMatches"
    by auto
  with assms(2) show ?thesis
    by (auto simp: finalizeMatches_set)
qed

lemma scanDocument_result:
  assumes "case settings e of None \<Rightarrow> False | Some s \<Rightarrow> enabled s"
    and "collectMatches e doc = Some allMatches"
  shows "scanDocument doc now e
           = Some (finalizeMatches e doc allMatches, snd (the (scanDocument doc now e)))"
proof -
  let ?sorted = "sort_key (\<lambda>m. r_start (range_m m)) (map (applyBoost (getContext doc)) allMatches)"
  let ?ex = "map_option matchStates (documentStates e (uri doc))"
  obtain states final where mg: "mergeMatchStates ?ex ?sorted Map.empty = (states, final)"
    by (cases "mergeMatchStates ?ex ?sorted Map.empty") auto
  from mergeMatchStates_result [OF mg] have "final = finalizeMatches e doc allMatches"
    by (simp add: finalizeMatches_def)
  with assms mg have "\<exists>e'. scanDocument doc now e = Some (finalizeMatches e doc allMatches, e')"
    by (simp add: scanDocument_def Let_def)
  then show ?thesis by auto
qed

lemma scanDocument_fst:
  assumes "case settings e of None \<Rightarrow> False | Some s \<Rightarrow> enabled s"
    and "collectMatches e doc = Some allMatches"
  shows "map_option fst (scanDocument doc now e) = Some (finalizeMatches e doc allMatches)"
  by (subst scanDocument_result [OF assms]) simp

lemma collectMatches_parts:
  assumes "collectMatches e doc = Some allMatches"
  shows "\<exists>patternMatches contextMatches customMatches.
           findMatches (patternMatcher e) (getText doc) doc = Some patternMatches
         \<and> findContextMatches doc = Some contextMatches
         \<and> findCustomMatches (customRulesManager e) doc = Some customMatches
         \<and> allMatches = addNonOverlapping customMatches
              (if ctx_isEnvFile (getContext doc)
               then addNonOverlapping patternMatches contextMatches
               else addNonOverlapping contextMatches patternMatches)"
  using assms unfolding collectMatches_def Let_def
  by (auto split: option.splits if_splits)

lemma collectMatches_ok:
  assumes "collectMatches e doc = Some allMatches" and "m \<in> set allMatches"
  shows "patternOK doc m \<or> contextOK doc m
       \<or> customOK (crm_hiddenStrings (customRulesManager e)) doc m"
proof -
  from collectMatches_parts [OF assms(1)]
  obtain patternMatches contextMatches customMatches
    where p: "findMatches (patternMatcher e) (getText doc) doc = Some patternMatches"
      and c: "findContextMatches doc = Some contextMatches"
      and x: "findCustomMatches (customRulesManager e) doc = Some customMatches"
      and a: "allMatches = addNonOverlapping customMatches
              (if ctx_isEnvFile (getContext doc)
               then addNonOverlapping patternMatches contextMatches
               else addNonOverlapping contextMatches patternMatches)"
    by blast
  from a assms(2) have "m \<in> set customMatches \<or> m \<in> set patternMatches \<or> m \<in> set contextMatches"
    using addNonOverlapping_set [of "addNonOverlapping patternMatches contextMatches" customMatches]
      addNonOverlapping_set [of "addNonOverlapping contextMatches patternMatches" customMatches]
      addNonOverlapping_set [of contextMatches patternMatches]
      addNonOverlapping_set [of patternMatches contextMatches]
    by (auto split: if_splits)
  with findMatches_ok [OF p] findContextMatches_ok [OF c] findCustomMatches_ok [OF x]
  show ?thesis by blast
qed

lemma within_substring:
  "within t m \<Longrightarrow> originalValue m = substring t (r_start (range_m m)) (r_end (range_m m))"
  by (simp add: within_def substring_def Let_def min_def max_def)

lemma substring_ordered:
  "a \<le> b \<Longrightarrow> b \<le> length t \<Longrightarrow> substring t a b = take (b - a) (drop a t)"
  by (simp add: substring_def Let_def min_def max_def)

text \<open>
  Claim C10, as amended.  The \<open>originalValue\<close> of every match a scan returns is the text
  of the document between two offsets, and the ends of its range are the positions
  \<open>positionAt\<close> gives for these offsets.  The range lies in the text and \<open>originalValue\<close> is
  the text the range covers in three cases: the match has the identity of a line of an
  environment file (also when the line ends with a carriage return and a line feed: the
  range and the value both stop before the carriage return); the value is empty; the
  value does not begin with a line feed and does not end with a carriage return.
\<close>

theorem originalValue_is_covered_text:
  assumes "scanDocument doc now e = Some (res, e')" and "m \<in> set res"
  shows "(\<exists>a b. a \<le> b \<and> b \<le> length (getText doc)
            \<and> originalValue m = substring (getText doc) a b
            \<and> range_m m = \<lparr>r_start = positionAt doc (int a), r_end = positionAt doc (int b)\<rparr>)
       \<and> ((\<exists>n. id_m m = uri doc @ ''-env-'' @ toString n)
             \<or> originalValue m = []
             \<or> (hd (originalValue m) \<noteq> LF \<and> last (originalValue m) \<noteq> CR)
           \<longrightarrow> r_start (range_m m) \<le> r_end (range_m m)
               \<and> r_end (range_m m) \<le> length (getText doc)
               \<and> originalValue m
                    = substring (getText doc) (r_start (range_m m)) (r_end (range_m m)))"
proof -
  from scanDocument_origin [OF assms] obtain allMatches c
    where "collectMatches e doc = Some allMatches" and "c \<in> set allMatches"
      and m: "m = finalOf e doc c"
    by blast
  from collectMatches_ok [OF this(1,2)]
  have ok: "patternOK doc c \<or> contextOK doc c
             \<or> customOK (crm_hiddenStrings (customRulesManager e)) doc c" .
  then have sp: "spans doc c"
    unfolding patternOK_def contextOK_def customOK_def by blast
  then obtain a b where ab: "a \<le> b" "b \<le> length (getText doc)"
    and v: "originalValue c = take (b - a) (drop a (getText doc))"
    and rg: "range_m c = \<lparr>r_start = positionAt doc (int a), r_end = positionAt doc (int b)\<rparr>"
    unfolding spans_def by blast
  from ab v have "originalValue c = substring (getText doc) a b"
    by (simp add: substring_ordered)
  with ab rg have first: "\<exists>a b. a \<le> b \<and> b \<le> length (getText doc)
            \<and> originalValue m = substring (getText doc) a b
            \<and> range_m m = \<lparr>r_start = positionAt doc (int a), r_end = positionAt doc (int b)\<rparr>"
    unfolding m by auto
  have second: "r_start (range_m m) \<le> r_end (range_m m)
               \<and> r_end (range_m m) \<le> length (getText doc)
               \<and> originalValue m
                    = substring (getText doc) (r_start (range_m m)) (r_end (range_m m))"
    if "(\<exists>n. id_m m = uri doc @ ''-env-'' @ toString n)
             \<or> originalValue m = []
             \<or> (hd (originalValue m) \<noteq> LF \<and> last (originalValue m) \<noteq> CR)"
  proof -
    from that have "within (getText doc) c"
    proof (elim disjE exE)
      fix n
      assume "id_m m = uri doc @ ''-env-'' @ toString n"
      then have "id_m c = uri doc @ ''-env-'' @ toString n"
        by (simp add: m)
      with ok show ?thesis
        by (rule env_identity_within)
    next
      assume "originalValue m = []"
      with sp show ?thesis
        by (intro spans_exact) (simp_all add: m)
    next
      assume "hd (originalValue m) \<noteq> LF \<and> last (originalValue m) \<noteq> CR"
      with sp show ?thesis
        by (intro spans_exact) (simp_all add: m)
    qed
    then have w: "within (getText doc) m"
      unfolding m within_def by simp
    with within_substring [OF w] show ?thesis
      unfolding within_def by simp
  qed
  from first second show ?thesis
    by blast
qed

text \<open>
  Claim C4, as amended.  Every match a scan returns has a value of at least
  \<open>MIN_SECRET_LENGTH\<close> characters, with two exceptions: a match of type \<open>ENV_VALUE\<close> whose key
  name is sensitive, of any length; and a hidden string of the settings, of three
  characters or more.
\<close>

theorem originalValue_length:
  assumes "scanDocument doc now e = Some (res, e')" and "m \<in> set res"
  shows "MIN_SECRET_LENGTH \<le> length (originalValue m)
       \<or> (type_m m = ENV_VALUE \<and> (\<exists>kn. keyName m = Some kn \<and> isSensitiveKeyName kn))
       \<or> (3 \<le> length (originalValue m)
           \<and> originalValue m \<in> set (crm_hiddenStrings (customRulesManager e)))"
proof -
  from scanDocument_origin [OF assms] obtain allMatches c
    where "collectMatches e doc = Some allMatches" and "c \<in> set allMatches"
      and m: "m = finalOf e doc c"
    by blast
  from collectMatches_ok [OF this(1,2)] show ?thesis
    unfolding patternOK_def contextOK_def customOK_def m by auto
qed

section \<open>Two documents with a JSON Web Token\<close>

text \<open>
  A file \<open>.env\<close> of two lines, the first one ended by a carriage return and a line feed,
  and a JavaScript file.  In both the value of a sensitive key has the shape of a JSON Web
  Token, so the catalog and the context analyzer both find it.
\<close>

definition docCrlf :: TextDocument where
  "docCrlf = \<lparr>getText = ''KEY=eyJa.eyJb.c'' @ [CR, LF] @ ''PWD=x'', uri = ''file:///p/.env'',
     fileName = ''/p/.env'', languageId = ''dotenv''\<rparr>"

definition jwtCrlf :: SensitiveMatch where
  "jwtCrlf = \<lparr>range_m = \<lparr>r_start = 4, r_end = 15\<rparr>, type_m = JWT,
      originalValue = ''eyJa.eyJb.c'', confidence = 90, isMasked = True,
      id_m = ''file:///p/.env-4-11'', keyName = Some ''KEY''\<rparr>"

definition envCrlf0 :: SensitiveMatch where
  "envCrlf0 = \<lparr>range_m = \<lparr>r_start = 4, r_end = 15\<rparr>, type_m = ENV_VALUE,
      originalValue = ''eyJa.eyJb.c'', confidence = 85, isMasked = True,
      id_m = ''file:///p/.env-env-0'', keyName = Some ''KEY''\<rparr>"

definition envCrlf1 :: SensitiveMatch where
  "envCrlf1 = \<lparr>range_m = \<lparr>r_start = 21, r_end = 22\<rparr>, type_m = ENV_VALUE,
      originalValue = ''x'', confidence = 85, isMasked = True,
      id_m = ''file:///p/.env-env-1'', keyName = Some ''PWD''\<rparr>"

definition engCrlf :: DetectionEngine where
  "engCrlf = snd (the (scanDocument docCrlf 0 eng0))"

definition docJs :: TextDocument where
  "docJs = \<lparr>getText = ''key:'' @ [DQ] @ ''eyJa.eyJb.c'' @ [DQ], uri = ''file:///p/a.js'',
     fileName = ''/p/a.js'', languageId = ''javascript''\<rparr>"

definition jwtJs :: SensitiveMatch where
  "jwtJs = \<lparr>range_m = \<lparr>r_start = 5, r_end = 16\<rparr>, type_m = JWT,
      originalValue = ''eyJa.eyJb.c'', confidence = 90, isMasked = True,
      id_m = ''file:///p/a.js-5-11'', keyName = Some ''key''\<rparr>"

definition genericJs :: SensitiveMatch where
  "genericJs = \<lparr>range_m = \<lparr>r_start = 5, r_end = 16\<rparr>, type_m = GENERIC_SECRET,
      originalValue = ''eyJa.eyJb.c'', confidence = 65, isMasked = True,
      id_m = ''file:///p/a.js-generic-0'', keyName = Some ''key''\<rparr>"

definition engJs :: DetectionEngine where
  "engJs = snd (the (scanDocument docJs 0 eng0))"

lemma findMatches_docCrlf:
  "findMatches (patternMatcher eng0) (getText docCrlf) docCrlf = Some [jwtCrlf]"
  by code_simp

lemma findContextMatches_docCrlf: "findContextMatches docCrlf = Some [envCrlf0, envCrlf1]"
  by code_simp

lemma findCustomMatches_docCrlf: "findCustomMatches (customRulesManager eng0) docCrlf = Some []"
  by code_simp

lemma isEnvFile_docCrlf: "ctx_isEnvFile (getContext docCrlf)"
  by code_simp

lemma collectMatches_docCrlf: "collectMatches eng0 docCrlf = Some [envCrlf0, envCrlf1]"
proof -
  have "addNonOverlapping [] (addNonOverlapping [jwtCrlf] [envCrlf0, envCrlf1])
          = [envCrlf0, envCrlf1]"
    by code_simp
  then show ?thesis
    by (simp add: collectMatches_def findMatches_docCrlf findContextMatches_docCrlf
          findCustomMatches_docCrlf isEnvFile_docCrlf)
qed

lemma finalizeMatches_docCrlf:
  "finalizeMatches eng0 docCrlf [envCrlf0, envCrlf1]
     = [envCrlf0\<lparr>confidence := 100\<rparr>, envCrlf1\<lparr>confidence := 100\<rparr>]"
  by code_simp

lemma scan_docCrlf:
  "scanDocument docCrlf 0 eng0
     = Some ([envCrlf0\<lparr>confidence := 100\<rparr>, envCrlf1\<lparr>confidence := 100\<rparr>], engCrlf)"
  using scanDocument_result [OF enabled_eng0 collectMatches_docCrlf, of 0]
  by (simp add: finalizeMatches_docCrlf engCrlf_def)

lemma findMatches_docJs:
  "findMatches (patternMatcher eng0) (getText docJs) docJs = Some [jwtJs]"
  by code_simp

lemma findContextMatches_docJs: "findContextMatches docJs = Some [genericJs]"
  by code_simp

lemma findCustomMatches_docJs: "findCustomMatches (customRulesManager eng0) docJs = Some []"
  by code_simp

lemma isEnvFile_docJs: "\<not> ctx_isEnvFile (getContext docJs)"
  by code_simp

lemma collectMatches_docJs: "collectMatches eng0 docJs = Some [jwtJs]"
proof -
  have "addNonOverlapping [] (addNonOverlapping [genericJs] [jwtJs]) = [jwtJs]"
    by code_simp
  then show ?thesis
    by (simp add: collectMatches_def findMatches_docJs findContextMatches_docJs
          findCustomMatches_docJs isEnvFile_docJs)
qed

lemma finalizeMatches_docJs:
  "finalizeMatches eng0 docJs [jwtJs] = [jwtJs\<lparr>confidence := 100\<rparr>]"
  by code_simp

lemma scan_docJs:
  "scanDocument docJs 0 eng0 = Some ([jwtJs\<lparr>confidence := 100\<rparr>], engJs)"
  using scanDocument_result [OF enabled_eng0 collectMatches_docJs, of 0]
  by (simp add: finalizeMatches_docJs engJs_def)

section \<open>Which detector prevails\<close>

lemma apart_unique:
  "sorted_wrt apart xs \<Longrightarrow> a \<in> set xs \<Longrightarrow> b \<in> set xs \<Longrightarrow> \<not> apart a b \<Longrightarrow> a = b"
  by (induction xs) (auto dest: apart_sym)

lemma patternOK_nonempty:
  assumes "patternOK doc pm"
  shows "r_start (range_m pm) < r_end (range_m pm)"
proof -
  from assms obtain a b where ab: "a \<le> b" "b \<le> length (getText doc)"
    and eq: "originalValue pm = take (b - a) (drop a (getText doc))"
    and rg: "range_m pm = \<lparr>r_start = positionAt doc (int a), r_end = positionAt doc (int b)\<rparr>"
    unfolding patternOK_def spans_def by blast
  from assms have long: "MIN_SECRET_LENGTH \<le> length (originalValue pm)"
    unfolding patternOK_def by blast
  have "length (originalValue pm) \<le> b - a"
    by (subst eq) simp
  with long have far: "a + 8 \<le> b"
    by (simp add: MIN_SECRET_LENGTH_def)
  from ab have "positionAt doc (int a) \<le> a"
    using positionAt_near [of a doc] by simp
  moreover from ab have "b - 1 \<le> positionAt doc (int b)"
    using positionAt_near [of b doc] by simp
  ultimately have "positionAt doc (int a) < positionAt doc (int b)"
    using far by arith
  with rg show ?thesis
    by simp
qed

text \<open>
  A candidate \<open>w\<close> that was accepted prevails over a candidate \<open>l\<close> of another identity whose
  range overlaps: the result has the match made of \<open>w\<close>, every match of the result that
  overlaps the range of \<open>w\<close> is that one, and no match of the result has the identity and
  the range of \<open>l\<close>.
\<close>

lemma accepted_prevails:
  assumes "sorted_wrt apart allMatches" and "w \<in> set allMatches"
    and "rangesOverlap (range_m w) (range_m l)" and "id_m w \<noteq> id_m l"
  shows "(\<exists>r \<in> set (finalizeMatches e doc allMatches).
            id_m r = id_m w \<and> range_m r = range_m w \<and> type_m r = type_m w
            \<and> confidence r
                = min 100 (confidence w + calculateConfidenceBoost (getContext doc) (keyName w)))
       \<and> (\<forall>r \<in> set (finalizeMatches e doc allMatches).
            rangesOverlap (range_m r) (range_m w) \<longrightarrow> id_m r = id_m w)
       \<and> (\<forall>r \<in> set (finalizeMatches e doc allMatches).
            \<not> (id_m r = id_m l \<and> range_m r = range_m l))"
proof -
  have only: "id_m r = id_m w"
    if "r \<in> set (finalizeMatches e doc allMatches)"
      and "rangesOverlap (range_m r) (range_m w)" for r
  proof -
    from that(1) obtain c where c: "c \<in> set allMatches" and r: "r = finalOf e doc c"
      by (auto simp: finalizeMatches_set)
    from that(2) r have "\<not> apart c w"
      by (simp add: apart_def)
    from apart_unique [OF assms(1) c assms(2) this] r show ?thesis
      by simp
  qed
  have "finalOf e doc w \<in> set (finalizeMatches e doc allMatches)"
    using assms(2) by (simp add: finalizeMatches_set)
  then have "\<exists>r \<in> set (finalizeMatches e doc allMatches).
            id_m r = id_m w \<and> range_m r = range_m w \<and> type_m r = type_m w
            \<and> confidence r
                = min 100 (confidence w + calculateConfidenceBoost (getContext doc) (keyName w))"
    by (rule bexI [rotated]) simp
  moreover have "\<not> (id_m r = id_m l \<and> range_m r = range_m l)"
    if "r \<in> set (finalizeMatches e doc allMatches)" for r
  proof
    assume "id_m r = id_m l \<and> range_m r = range_m l"
    with assms(3) have "id_m r = id_m l" and "rangesOverlap (range_m r) (range_m w)"
      by (auto simp: rangesOverlap_def)
    with only [OF that] assms(4) show False
      by simp
  qed
  ultimately show ?thesis
    using only by blast
qed

text \<open>
  Claim C3.  A candidate \<open>pm\<close> of the pattern matcher and a candidate \<open>cm\<close> of the context
  analyzer cover the same range, or overlapping ranges.  In a file that is not an
  environment file the result of the scan has the match of the pattern, with its type
  and its confidence after the boost; every match of the result that overlaps it is that
  match; the candidate of the context analyzer is not in the result.  In an environment
  file the two candidates change places.
\<close>

theorem overlap_priority:
  assumes "scanDocument doc now e = Some (res, e')"
    and "case settings e of None \<Rightarrow> False | Some s \<Rightarrow> enabled s"
    and "findMatches (patternMatcher e) (getText doc) doc = Some patternMatches"
    and "findContextMatches doc = Some contextMatches"
    and "pm \<in> set patternMatches" and "cm \<in> set contextMatches"
    and "range_m pm = range_m cm \<or> rangesOverlap (range_m pm) (range_m cm)"
  shows "if ctx_isEnvFile (getContext doc)
         then (\<exists>r \<in> set res. id_m r = id_m cm \<and> range_m r = range_m cm \<and> type_m r = type_m cm
                 \<and> confidence r
                     = min 100 (confidence cm + calculateConfidenceBoost (getContext doc) (keyName cm)))
            \<and> (\<forall>r \<in> set res. rangesOverlap (range_m r) (range_m cm) \<longrightarrow> id_m r = id_m cm)
            \<and> (\<forall>r \<in> set res. \<not> (id_m r = id_m pm \<and> range_m r = range_m pm))
         else (\<exists>r \<in> set res. id_m r = id_m pm \<and> range_m r = range_m pm \<and> type_m r = type_m pm
                 \<and> confidence r
                     = min 100 (confidence pm + calculateConfidenceBoost (getContext doc) (keyName pm)))
            \<and> (\<forall>r \<in> set res. rangesOverlap (range_m r) (range_m pm) \<longrightarrow> id_m r = id_m pm)
            \<and> (\<forall>r \<in> set res. \<not> (id_m r = id_m cm \<and> range_m r = range_m cm))"
proof -
  from scanDocument_enabled [OF assms(1,2)] obtain allMatches
    where cm: "collectMatches e doc = Some allMatches"
      and res: "res = finalizeMatches e doc allMatches"
    by blast
  from collectMatches_parts [OF cm] assms(3,4) obtain customMatches
    where parts: "allMatches = addNonOverlapping customMatches
              (if ctx_isEnvFile (getContext doc)
               then addNonOverlapping patternMatches contextMatches
               else addNonOverlapping contextMatches patternMatches)"
    by auto
  have sorted: "sorted_wrt apart allMatches"
    using cm by (rule collectMatches_apart)
  have pOK: "patternOK doc pm"
    using findMatches_ok [OF assms(3)] assms(5) by blast
  have cOK: "contextOK doc cm"
    using findContextMatches_ok [OF assms(4)] assms(6) by blast
  have ids: "id_m pm \<noteq> id_m cm"
    using pOK cOK by (rule id_families_differ)
  have ov: "rangesOverlap (range_m pm) (range_m cm)"
    using assms(7) patternOK_nonempty [OF pOK] by (auto simp: rangesOverlap_def)
  show ?thesis
  proof (cases "ctx_isEnvFile (getContext doc)")
    case True
    have "set contextMatches \<subseteq> set (addNonOverlapping patternMatches contextMatches)"
      using addNonOverlapping_set [of contextMatches patternMatches] by (rule conjunct1)
    also have "\<dots> \<subseteq> set allMatches"
      unfolding parts using True
        addNonOverlapping_set [of "addNonOverlapping patternMatches contextMatches" customMatches]
      by (simp only: if_True)
    finally have win: "cm \<in> set allMatches"
      using assms(6) by blast
    from ov have ov': "rangesOverlap (range_m cm) (range_m pm)"
      by (auto simp: rangesOverlap_def)
    from ids have ids': "id_m cm \<noteq> id_m pm"
      by (rule not_sym)
    show ?thesis
      unfolding res if_P [OF True] by (rule accepted_prevails [OF sorted win ov' ids'])
  next
    case False
    have "set patternMatches \<subseteq> set (addNonOverlapping contextMatches patternMatches)"
      using addNonOverlapping_set [of patternMatches contextMatches] by (rule conjunct1)
    also have "\<dots> \<subseteq> set allMatches"
      unfolding parts using False
        addNonOverlapping_set [of "addNonOverlapping contextMatches patternMatches" customMatches]
      by (simp only: if_False)
    finally have win: "pm \<in> set allMatches"
      using assms(5) by blast
    show ?thesis
      unfolding res if_not_P [OF False] by (rule accepted_prevails [OF sorted win ov ids])
  qed
qed

theorem overlap_priority_witness:
  "scanDocument docJs 0 eng0 = Some ([jwtJs\<lparr>confidence := 100\<rparr>], engJs)
   \<and> findMatches (patternMatcher eng0) (getText docJs) docJs = Some [jwtJs]
   \<and> findContextMatches docJs = Some [genericJs]
   \<and> range_m jwtJs = range_m genericJs
   \<and> \<not> ctx_isEnvFile (getContext docJs)
   \<and> (\<exists>r \<in> set [jwtJs\<lparr>confidence := 100\<rparr>].
         id_m r = id_m jwtJs \<and> range_m r = range_m jwtJs \<and> type_m r = JWT \<and> confidence r = 100)
   \<and> scanDocument docCrlf 0 eng0
       = Some ([envCrlf0\<lparr>confidence := 100\<rparr>, envCrlf1\<lparr>confidence := 100\<rparr>], engCrlf)
   \<and> findMatches (patternMatcher eng0) (getText docCrlf) docCrlf = Some [jwtCrlf]
   \<and> findContextMatches docCrlf = Some [envCrlf0, envCrlf1]
   \<and> range_m jwtCrlf = range_m envCrlf0
   \<and> ctx_isEnvFile (getContext docCrlf)
   \<and> (\<exists>r \<in> set [envCrlf0\<lparr>confidence := 100\<rparr>, envCrlf1\<lparr>confidence := 100\<rparr>].
         id_m r = id_m envCrlf0 \<and> range_m r = range_m envCrlf0 \<and> type_m r = ENV_VALUE
         \<and> confidence r = 100)"
  using overlap_priority [OF scan_docJs enabled_eng0 findMatches_docJs findContextMatches_docJs,
      of jwtJs genericJs]
    overlap_priority [OF scan_docCrlf enabled_eng0 findMatches_docCrlf findContextMatches_docCrlf,
      of jwtCrlf envCrlf0]
    scan_docJs findMatches_docJs findContextMatches_docJs isEnvFile_docJs
    scan_docCrlf findMatches_docCrlf findContextMatches_docCrlf isEnvFile_docCrlf
  by (simp add: jwtJs_def genericJs_def jwtCrlf_def envCrlf0_def)

section \<open>The scans of the example documents\<close>

text \<open>The two matches of the file \<open>.env\<close> do not overlap.\<close>

theorem scanDocument_no_overlap_witness:
  "scanDocument docCrlf 0 eng0
     = Some ([envCrlf0\<lparr>confidence := 100\<rparr>, envCrlf1\<lparr>confidence := 100\<rparr>], engCrlf)
   \<and> (0 :: nat) < length [envCrlf0\<lparr>confidence := 100\<rparr>, envCrlf1\<lparr>confidence := 100\<rparr>]
   \<and> (1 :: nat) < length [envCrlf0\<lparr>confidence := 100\<rparr>, envCrlf1\<lparr>confidence := 100\<rparr>]
   \<and> (0 :: nat) \<noteq> 1
   \<and> (r_end (range_m ([envCrlf0\<lparr>confidence := 100\<rparr>, envCrlf1\<lparr>confidence := 100\<rparr>] ! 0))
         \<le> r_start (range_m ([envCrlf0\<lparr>confidence := 100\<rparr>, envCrlf1\<lparr>confidence := 100\<rparr>] ! 1))
       \<or> r_end (range_m ([envCrlf0\<lparr>confidence := 100\<rparr>, envCrlf1\<lparr>confidence := 100\<rparr>] ! 1))
         \<le> r_start (range_m ([envCrlf0\<lparr>confidence := 100\<rparr>, envCrlf1\<lparr>confidence := 100\<rparr>] ! 0)))"
  using scanDocument_no_overlap [OF scan_docCrlf, of 0 1] scan_docCrlf
  by simp

text \<open>
  The first line of the file \<open>.env\<close> ends with a carriage return, at offset 15, and a line
  feed: the range of its match stops at the carriage return and the value is the text of
  the range.
\<close>

lemma identity_envCrlf0:
  "id_m (envCrlf0\<lparr>confidence := 100\<rparr>) = uri docCrlf @ ''-env-'' @ toString 0"
  by code_simp

theorem originalValue_is_covered_text_witness:
  "scanDocument docCrlf 0 eng0
     = Some ([envCrlf0\<lparr>confidence := 100\<rparr>, envCrlf1\<lparr>confidence := 100\<rparr>], engCrlf)
   \<and> envCrlf0\<lparr>confidence := 100\<rparr>
        \<in> set [envCrlf0\<lparr>confidence := 100\<rparr>, envCrlf1\<lparr>confidence := 100\<rparr>]
   \<and> id_m (envCrlf0\<lparr>confidence := 100\<rparr>) = uri docCrlf @ ''-env-'' @ toString 0
   \<and> getText docCrlf ! 15 = CR
   \<and> getText docCrlf ! 16 = LF
   \<and> r_end (range_m (envCrlf0\<lparr>confidence := 100\<rparr>)) = 15
   \<and> r_start (range_m (envCrlf0\<lparr>confidence := 100\<rparr>))
        \<le> r_end (range_m (envCrlf0\<lparr>confidence := 100\<rparr>))
   \<and> r_end (range_m (envCrlf0\<lparr>confidence := 100\<rparr>)) \<le> length (getText docCrlf)
   \<and> originalValue (envCrlf0\<lparr>confidence := 100\<rparr>)
        = substring (getText docCrlf) (r_start (range_m (envCrlf0\<lparr>confidence := 100\<rparr>)))
            (r_end (range_m (envCrlf0\<lparr>confidence := 100\<rparr>)))"
proof -
  have here: "envCrlf0\<lparr>confidence := 100\<rparr>
        \<in> set [envCrlf0\<lparr>confidence := 100\<rparr>, envCrlf1\<lparr>confidence := 100\<rparr>]"
    by simp
  have cr: "getText docCrlf ! 15 = CR" and lf: "getText docCrlf ! 16 = LF"
    by (simp_all add: docCrlf_def)
  have stop: "r_end (range_m (envCrlf0\<lparr>confidence := 100\<rparr>)) = 15"
    by (simp add: envCrlf0_def)
  from originalValue_is_covered_text [OF scan_docCrlf here] identity_envCrlf0
    scan_docCrlf here cr lf stop
  show ?thesis by blast
qed

text \<open>
  The claim as stated fails for a user pattern.  The pattern \<open>secret=[^\n]+\<close> matches the
  first line of a JavaScript file with its carriage return: the value of the match has 16
  characters and ends with the carriage return, the offset after it is the offset of the
  line feed, and the range of the match stops at the carriage return, at 15.  The text
  the range covers is the line without the carriage return.
\<close>

definition cfgCr :: VeilSettings where
  "cfgCr = defaultSettings\<lparr>customPatterns :=
     [\<lparr>cp_name = ''Line'', cp_pattern = ''secret=[^'' @ [BSL] @ ''n]+'',
       cp_description = None\<rparr>]\<rparr>"

definition engCr :: DetectionEngine where
  "engCr = snd (startup cfgCr)"

definition docCr :: TextDocument where
  "docCr = \<lparr>getText = ''secret=abcdefgh'' @ [CR, LF] @ ''x=1'', uri = ''file:///p/a.js'',
     fileName = ''/p/a.js'', languageId = ''javascript''\<rparr>"

definition matchCr :: SensitiveMatch where
  "matchCr = \<lparr>range_m = \<lparr>r_start = 0, r_end = 15\<rparr>, type_m = CUSTOM_PATTERN,
      originalValue = ''secret=abcdefgh'' @ [CR], confidence = 80, isMasked = True,
      id_m = ''file:///p/a.js-0-16'', keyName = None\<rparr>"

lemma startup_cfgCr: "fst (startup cfgCr) = None"
  by code_simp

lemma enabled_engCr: "case settings engCr of None \<Rightarrow> False | Some s \<Rightarrow> enabled s"
  by code_simp

lemma collectMatches_docCr: "collectMatches engCr docCr = Some [matchCr]"
  by code_simp

lemma finalizeMatches_docCr: "finalizeMatches engCr docCr [matchCr] = [matchCr]"
  by code_simp

lemma scan_docCr: "map_option fst (scanDocument docCr 0 engCr) = Some [matchCr]"
  using scanDocument_fst [OF enabled_engCr collectMatches_docCr, of 0]
  by (simp only: finalizeMatches_docCr)

theorem covered_text_counterexample:
  "fst (startup cfgCr) = None
   \<and> map_option (map (\<lambda>m. (range_m m, originalValue m)) \<circ> fst) (scanDocument docCr 0 engCr)
       = Some [(\<lparr>r_start = 0, r_end = 15\<rparr>, ''secret=abcdefgh'' @ [CR])]
   \<and> substring (getText docCr) 0 15 = ''secret=abcdefgh''
   \<and> getText docCr ! 15 = CR
   \<and> getText docCr ! 16 = LF"
proof -
  have "substring (getText docCr) 0 15 = ''secret=abcdefgh''"
    by code_simp
  moreover have "getText docCr ! 15 = CR" and "getText docCr ! 16 = LF"
    by (simp_all add: docCr_def)
  moreover have "map_option (map (\<lambda>m. (range_m m, originalValue m)) \<circ> fst)
        (scanDocument docCr 0 engCr)
       = Some [(\<lparr>r_start = 0, r_end = 15\<rparr>, ''secret=abcdefgh'' @ [CR])]"
    using scan_docCr by (auto simp: matchCr_def)
  ultimately show ?thesis
    using startup_cfgCr by blast
qed

text \<open>
  A hidden string of three characters: the settings hide the string \<open>tok\<close>, and a
  JavaScript file contains it.
\<close>

definition engHidden :: DetectionEngine where
  "engHidden = snd (startup (defaultSettings\<lparr>hiddenStrings := [''tok'']\<rparr>))"

definition docHidden :: TextDocument where
  "docHidden = \<lparr>getText = ''a tok b'', uri = ''file:///p/a.js'', fileName = ''/p/a.js'',
     languageId = ''javascript''\<rparr>"

definition matchHidden :: SensitiveMatch where
  "matchHidden = \<lparr>range_m = \<lparr>r_start = 2, r_end = 5\<rparr>, type_m = CUSTOM_PATTERN,
      originalValue = ''tok'', confidence = 100, isMasked = True,
      id_m = ''file:///p/a.js-str-2'', keyName = None\<rparr>"

lemma enabled_engHidden: "case settings engHidden of None \<Rightarrow> False | Some s \<Rightarrow> enabled s"
  by code_simp

lemma collectMatches_docHidden: "collectMatches engHidden docHidden = Some [matchHidden]"
  by code_simp

lemma finalizeMatches_docHidden:
  "finalizeMatches engHidden docHidden [matchHidden] = [matchHidden]"
  by code_simp

lemma scan_docHidden:
  "map_option fst (scanDocument docHidden 0 engHidden) = Some [matchHidden]"
  using scanDocument_fst [OF enabled_engHidden collectMatches_docHidden, of 0]
  by (simp only: finalizeMatches_docHidden)

lemma sensitive_API_KEY: "isSensitiveKeyName ''API_KEY''"
  by code_simp

text \<open>
  The match of the line \<open>API_KEY=abc\<close> has a value of three characters: its type is
  \<open>ENV_VALUE\<close> and its key name is sensitive.
\<close>

theorem originalValue_length_witness:
  "scanDocument docEnv 0 eng0 = Some ([matchEnv\<lparr>confidence := 100\<rparr>], engEnv)
   \<and> matchEnv\<lparr>confidence := 100\<rparr> \<in> set [matchEnv\<lparr>confidence := 100\<rparr>]
   \<and> length (originalValue (matchEnv\<lparr>confidence := 100\<rparr>)) = 3
   \<and> keyName (matchEnv\<lparr>confidence := 100\<rparr>) = Some ''API_KEY''
   \<and> isSensitiveKeyName ''API_KEY''
   \<and> (MIN_SECRET_LENGTH \<le> length (originalValue (matchEnv\<lparr>confidence := 100\<rparr>))
       \<or> (type_m (matchEnv\<lparr>confidence := 100\<rparr>) = ENV_VALUE
           \<and> (\<exists>kn. keyName (matchEnv\<lparr>confidence := 100\<rparr>) = Some kn \<and> isSensitiveKeyName kn))
       \<or> (3 \<le> length (originalValue (matchEnv\<lparr>confidence := 100\<rparr>))
           \<and> originalValue (matchEnv\<lparr>confidence := 100\<rparr>)
                \<in> set (crm_hiddenStrings (customRulesManager eng0))))"
proof -
  have here: "matchEnv\<lparr>confidence := 100\<rparr> \<in> set [matchEnv\<lparr>confidence := 100\<rparr>]"
    by simp
  have short: "length (originalValue (matchEnv\<lparr>confidence := 100\<rparr>)) = 3"
    and key: "keyName (matchEnv\<lparr>confidence := 100\<rparr>) = Some ''API_KEY''"
    by (simp_all add: matchEnv_def)
  from originalValue_length [OF scan_docEnv here] scan_docEnv here short key sensitive_API_KEY
  show ?thesis by blast
qed

text \<open>
  The claim as stated fails.  The scan of the file \<open>.env\<close> with the line \<open>API_KEY=abc\<close>
  returns a match whose value has three characters, and so does the scan of a file that
  contains the hidden string \<open>tok\<close>.
\<close>

theorem short_value_counterexample:
  "map_option (map (\<lambda>m. (type_m m, originalValue m)) \<circ> fst) (scanDocument docEnv 0 eng0)
     = Some [(ENV_VALUE, ''abc'')]
   \<and> map_option (map (\<lambda>m. (type_m m, originalValue m)) \<circ> fst) (scanDocument docHidden 0 engHidden)
     = Some [(CUSTOM_PATTERN, ''tok'')]
   \<and> length ''abc'' < MIN_SECRET_LENGTH
   \<and> length ''tok'' < MIN_SECRET_LENGTH"
  using scan_docEnv scan_docHidden
  by (auto simp: matchEnv_def matchHidden_def MIN_SECRET_LENGTH_def)

section \<open>User-supplied patterns\<close>

































section \<open>A custom pattern that does not compile\<close>

text \<open>
  The settings hold a pattern with an open parenthesis and a valid pattern.  The file
  contains a text the valid pattern matches.
\<close>

definition cfgBad :: VeilSettings where
  "cfgBad = defaultSettings\<lparr>customPatterns :=
     [\<lparr>cp_name = ''Bad'', cp_pattern = ''('', cp_description = None\<rparr>,
      \<lparr>cp_name = ''Tok'', cp_pattern = ''tok_[a-z]{8}'', cp_description = None\<rparr>]\<rparr>"

definition cfgTok :: VeilSettings where
  "cfgTok = defaultSettings\<lparr>customPatterns :=
     [\<lparr>cp_name = ''Tok'', cp_pattern = ''tok_[a-z]{8}'', cp_description = None\<rparr>]\<rparr>"

definition docTok :: TextDocument where
  "docTok = \<lparr>getText = ''tok_abcdefgh'', uri = ''file:///p/a.js'', fileName = ''/p/a.js'',
     languageId = ''javascript''\<rparr>"

definition engBad :: DetectionEngine where
  "engBad = snd (loadSettings cfgBad eng0)"

definition engTok :: DetectionEngine where
  "engTok = snd (startup cfgTok)"

lemma enabled_engBad: "case settings engBad of None \<Rightarrow> False | Some s \<Rightarrow> enabled s"
  by code_simp

lemma collectMatches_engBad: "collectMatches engBad docTok = Some []"
  by code_simp

lemma scan_engBad: "map_option fst (scanDocument docTok 0 engBad) = Some []"
  using scanDocument_fst [OF enabled_engBad collectMatches_engBad, of 0]
  by (simp add: finalizeMatches_def)

lemma enabled_engTok: "case settings engTok of None \<Rightarrow> False | Some s \<Rightarrow> enabled s"
  by code_simp

lemma collectMatches_engTok:
  "map_option (map originalValue) (collectMatches engTok docTok) = Some [''tok_abcdefgh'']"
  by code_simp

lemma scan_engTok:
  "map_option (map originalValue \<circ> fst) (scanDocument docTok 0 engTok) = Some [''tok_abcdefgh'']"
proof -
  from collectMatches_engTok obtain allMatches
    where c: "collectMatches engTok docTok = Some allMatches"
      and v: "map originalValue allMatches = [''tok_abcdefgh'']"
    by auto
  have "set (map originalValue (finalizeMatches engTok docTok allMatches))
          = set (map originalValue allMatches)"
    by (auto simp: finalizeMatches_set image_iff)
  moreover have "length (finalizeMatches engTok docTok allMatches) = length allMatches"
    by (simp add: finalizeMatches_def)
  ultimately have "map originalValue (finalizeMatches engTok docTok allMatches) = [''tok_abcdefgh'']"
    using v by (cases "finalizeMatches engTok docTok allMatches") auto
  with scanDocument_fst [OF enabled_engTok c, of 0] show ?thesis
    by (auto simp: map_option_case split: option.splits)
qed

text \<open>
  Claim C7 does not hold of the code.  \<open>setCustomPatterns\<close> compiles the patterns with no
  handler, so the pattern that does not compile makes \<open>loadSettings\<close> throw a
  \<open>SyntaxError\<close>, when the engine is constructed and when the settings are reloaded.  No
  diagnostic is written; the pattern matcher and the custom rules manager keep what they
  had, without the valid pattern; and the scan of a text the valid pattern matches returns
  nothing, where the engine with the valid pattern alone returns the match.
\<close>

theorem invalid_custom_pattern_throws:
  "fst (startup cfgBad) = Some SyntaxError
   \<and> fst (loadSettings cfgBad eng0) = Some SyntaxError
   \<and> console engBad = []
   \<and> pm_customPatterns (patternMatcher engBad) = []
   \<and> compiledPatterns (customRulesManager engBad) = []
   \<and> map_option fst (scanDocument docTok 0 engBad) = Some []
   \<and> fst (startup cfgTok) = None
   \<and> map_option (map originalValue \<circ> fst) (scanDocument docTok 0 engTok)
       = Some [''tok_abcdefgh'']"
proof -
  have "fst (startup cfgBad) = Some SyntaxError"
    by code_simp
  moreover have "fst (loadSettings cfgBad eng0) = Some SyntaxError"
    by code_simp
  moreover have "console engBad = []"
    by code_simp
  moreover have "pm_customPatterns (patternMatcher engBad) = []"
    by code_simp
  moreover have "compiledPatterns (customRulesManager engBad) = []"
    by code_simp
  moreover have "fst (startup cfgTok) = None"
    by code_simp
  ultimately show ?thesis
    using scan_engBad scan_engTok by simp
qed

section \<open>A toggle of an identity with no match\<close>

text \<open>
  The file \<open>.env\<close> with the line \<open>API_KEY=abc\<close> has been scanned: its state has one match,
  of identity \<open>file:///p/.env-env-0\<close>.  Then a second line is added to the file.
\<close>

definition docEnv2 :: TextDocument where
  "docEnv2 = \<lparr>getText = ''API_KEY=abc'' @ [LF] @ ''PWD=x'', uri = ''file:///p/.env'',
     fileName = ''/p/.env'', languageId = ''dotenv''\<rparr>"

definition matchEnv1 :: SensitiveMatch where
  "matchEnv1 = \<lparr>range_m = \<lparr>r_start = 16, r_end = 17\<rparr>, type_m = ENV_VALUE,
      originalValue = ''x'', confidence = 85, isMasked = True,
      id_m = ''file:///p/.env-env-1'', keyName = Some ''PWD''\<rparr>"

definition engStale :: DetectionEngine where
  "engStale = snd (toggleMatchMask (uri docEnv) ''file:///p/.env-env-1'' engEnv)"

lemma toggle_engEnv:
  "toggleMatchMask (uri docEnv) ''file:///p/.env-env-1'' engEnv =
     (False, engEnv\<lparr>documentStates := (documentStates engEnv)(uri docEnv \<mapsto>
        stateEnv\<lparr>matchStates := (matchStates stateEnv)(''file:///p/.env-env-1'' \<mapsto> False)\<rparr>)\<rparr>)"
proof -
  have "''file:///p/.env-env-1'' \<notin> id_m ` set (matches stateEnv)"
    by (simp add: stateEnv_facts matchEnv_def)
  from toggleMatchMask_unknown_match [OF stateEnv_facts(1) this] show ?thesis
    by (simp add: stateEnv_flags)
qed

lemma engStale_facts:
  "case settings engStale of None \<Rightarrow> False | Some s \<Rightarrow> enabled s"
  "collectMatches engStale doc = collectMatches eng0 doc"
  "documentStates engStale (uri docEnv2) =
     Some (stateEnv\<lparr>matchStates := (matchStates stateEnv)(''file:///p/.env-env-1'' \<mapsto> False)\<rparr>)"
proof -
  from toggleMatchMask_frame [of "uri docEnv" "''file:///p/.env-env-1''" engEnv] engEnv_frame
    enabled_eng0
  show "case settings engStale of None \<Rightarrow> False | Some s \<Rightarrow> enabled s"
    by (simp add: engStale_def)
  from toggleMatchMask_frame [of "uri docEnv" "''file:///p/.env-env-1''" engEnv]
  have "collectMatches engStale doc = collectMatches engEnv doc"
    unfolding engStale_def by (intro collectMatches_cong) simp_all
  then show "collectMatches engStale doc = collectMatches eng0 doc"
    by (simp add: engEnv_frame)
  show "documentStates engStale (uri docEnv2) =
     Some (stateEnv\<lparr>matchStates := (matchStates stateEnv)(''file:///p/.env-env-1'' \<mapsto> False)\<rparr>)"
  proof -
    have "uri docEnv2 = uri docEnv"
      by (simp add: docEnv_def docEnv2_def)
    then show ?thesis
      by (simp add: engStale_def toggle_engEnv)
  qed
qed

lemma collectMatches_docEnv2: "collectMatches eng0 docEnv2 = Some [matchEnv, matchEnv1]"
  by code_simp

lemma sorted_docEnv2:
  "sort_key (\<lambda>m. r_start (range_m m)) (map (applyBoost (getContext docEnv2)) [matchEnv, matchEnv1])
     = [matchEnv\<lparr>confidence := 100\<rparr>, matchEnv1\<lparr>confidence := 100\<rparr>]"
  by code_simp

lemma scan_docEnv2:
  "map_option fst (scanDocument docEnv2 1 engStale)
     = Some [matchEnv\<lparr>confidence := 100, isMasked := True\<rparr>,
             matchEnv1\<lparr>confidence := 100, isMasked := False\<rparr>]"
proof -
  have c: "collectMatches engStale docEnv2 = Some [matchEnv, matchEnv1]"
    by (simp add: engStale_facts(2) collectMatches_docEnv2)
  have "finalizeMatches engStale docEnv2 [matchEnv, matchEnv1]
          = map (\<lambda>m. m\<lparr>isMasked := priorFlag (map_option matchStates
                                   (documentStates engStale (uri docEnv2))) (id_m m)\<rparr>)
              [matchEnv\<lparr>confidence := 100\<rparr>, matchEnv1\<lparr>confidence := 100\<rparr>]"
    by (simp only: finalizeMatches_def sorted_docEnv2)
  then have "finalizeMatches engStale docEnv2 [matchEnv, matchEnv1]
          = [matchEnv\<lparr>confidence := 100, isMasked := True\<rparr>,
             matchEnv1\<lparr>confidence := 100, isMasked := False\<rparr>]"
    by (simp add: engStale_facts(3) priorFlag_def stateEnv_flags matchEnv_def matchEnv1_def)
  with scanDocument_fst [OF engStale_facts(1) c, of 1] show ?thesis
    by simp
qed

text \<open>
  Claim C6 does not hold of the code.  \<open>toggleMatchMask\<close> is called with the known document
  and the identity \<open>file:///p/.env-env-1\<close>, which has no flag and no match.  The call
  returns \<open>False\<close> and stores the flag \<open>False\<close> under that identity: the stored state has
  changed.  A second call with the same identity returns \<open>True\<close>.  The flag stays until the
  next scan reads it: when the file gets a second line, the match of that line takes the
  identity and is returned revealed, though it was never seen before.
\<close>

theorem toggle_unknown_match_stale_flag:
  "map_option (\<lambda>st. matchStates st ''file:///p/.env-env-1'') (documentStates engEnv (uri docEnv))
     = Some None
   \<and> ''file:///p/.env-env-1'' \<notin> id_m ` set (getMatches engEnv (uri docEnv))
   \<and> fst (toggleMatchMask (uri docEnv) ''file:///p/.env-env-1'' engEnv) = False
   \<and> map_option (\<lambda>st. matchStates st ''file:///p/.env-env-1'')
        (documentStates engStale (uri docEnv)) = Some (Some False)
   \<and> fst (toggleMatchMask (uri docEnv) ''file:///p/.env-env-1'' engStale) = True
   \<and> map_option (map (\<lambda>m. (id_m m, isMasked m)) \<circ> fst) (scanDocument docEnv2 1 engStale)
       = Some [(''file:///p/.env-env-0'', True), (''file:///p/.env-env-1'', False)]"
proof -
  have same: "uri docEnv2 = uri docEnv"
    by (simp add: docEnv_def docEnv2_def)
  have "map_option (\<lambda>st. matchStates st ''file:///p/.env-env-1'')
          (documentStates engEnv (uri docEnv)) = Some None"
    by (simp add: stateEnv_facts(1) stateEnv_flags)
  moreover have "''file:///p/.env-env-1'' \<notin> id_m ` set (getMatches engEnv (uri docEnv))"
    by (simp add: getMatches_def stateEnv_facts matchEnv_def)
  moreover have "fst (toggleMatchMask (uri docEnv) ''file:///p/.env-env-1'' engEnv) = False"
    by (simp add: toggle_engEnv)
  moreover have "map_option (\<lambda>st. matchStates st ''file:///p/.env-env-1'')
        (documentStates engStale (uri docEnv)) = Some (Some False)"
    using engStale_facts(3) by (simp add: same)
  moreover have "fst (toggleMatchMask (uri docEnv) ''file:///p/.env-env-1'' engStale) = True"
    using engStale_facts(3) by (simp add: same toggleMatchMask_def)
  moreover have "map_option (map (\<lambda>m. (id_m m, isMasked m)) \<circ> fst) (scanDocument docEnv2 1 engStale)
       = Some [(''file:///p/.env-env-0'', True), (''file:///p/.env-env-1'', False)]"
    using scan_docEnv2 by (auto simp: matchEnv_def matchEnv1_def)
  ultimately show ?thesis
    by blast
qed

end
